theory Spec2Isabelle
  imports Main
begin

section \<open>Data model\<close>

text \<open>
  The types follow \<^verbatim>\<open>types.ts\<close>, \<^verbatim>\<open>ConfigManager.ts\<close> and the fields of a
  Secret Manager version that \<^verbatim>\<open>GcpMonorepoSecretManager.cleanupSecretVersions\<close> reads:
  \<^verbatim>\<open>name\<close>, \<^verbatim>\<open>state\<close> and \<^verbatim>\<open>createTime?.seconds\<close>. Optional fields are options.
  Timestamps are integers (seconds since the epoch) inside the range where a JavaScript
  \<^verbatim>\<open>Date\<close> is valid, so that \<^verbatim>\<open>getTime()\<close> is the integer number of milliseconds.
\<close>

datatype Environment = staging | production

datatype VersionState = STATE_UNSPECIFIED | ENABLED | DISABLED | DESTROYED

record SecretVersion =
  name :: "string option"
  state :: VersionState
  createTime_seconds :: "int option"

record DeletePolicy =
  maxVersions :: "int option"
  maxAgeDays :: "int option"
  enabled :: "bool option"

record ServiceConfig =
  service_name :: string
  envPath :: string
  targetPath :: string
  secretPrefix :: string

record SecretsConfig =
  services :: "ServiceConfig list"
  projectId_staging :: string
  projectId_production :: string
  deletePolicy :: "DeletePolicy option"

datatype Error = Error (message: string)

section \<open>String helpers of the JavaScript runtime\<close>

text \<open>\<^verbatim>\<open>s.includes(pat)\<close>: \<^verbatim>\<open>pat\<close> occurs in \<^verbatim>\<open>s\<close> as a contiguous run.\<close>

fun includes_str :: "string \<Rightarrow> string \<Rightarrow> bool" where
  "includes_str [] pat = (pat = [])"
| "includes_str (c # cs) pat = (take (length pat) (c # cs) = pat \<or> includes_str cs pat)"

text \<open>\<^verbatim>\<open>s.replace(pat, rep)\<close> with a string pattern: the first occurrence only.\<close>

fun replace :: "string \<Rightarrow> string \<Rightarrow> string \<Rightarrow> string" where
  "replace [] pat rep = (if pat = [] then rep else [])"
| "replace (c # cs) pat rep =
     (if take (length pat) (c # cs) = pat then rep @ drop (length pat) (c # cs)
      else c # replace cs pat rep)"

section \<open>ConfigManager\<close>

definition getProjectId :: "SecretsConfig \<Rightarrow> Environment \<Rightarrow> string" where
  "getProjectId cfg env =
     (case env of staging \<Rightarrow> projectId_staging cfg | production \<Rightarrow> projectId_production cfg)"

definition getServiceByName :: "SecretsConfig \<Rightarrow> string \<Rightarrow> ServiceConfig option" where
  "getServiceByName cfg n = find (\<lambda>service. service_name service = n) (services cfg)"

definition getServiceNames :: "SecretsConfig \<Rightarrow> string list" where
  "getServiceNames cfg = map service_name (services cfg)"

definition getDeletePolicy :: "SecretsConfig \<Rightarrow> DeletePolicy" where
  "getDeletePolicy cfg =
     (case deletePolicy cfg of
        Some p \<Rightarrow> p
      | None \<Rightarrow> \<lparr>maxVersions = Some 10, maxAgeDays = Some 30, enabled = Some True\<rparr>)"

section \<open>Selecting the versions to destroy\<close>

text \<open>
  The synchronous part of \<^verbatim>\<open>cleanupSecretVersions\<close>, between the listing and the destroy
  loop. \<^verbatim>\<open>Array.prototype.sort\<close> is stable, and so is \<^const>\<open>sort_key\<close>; the comparator
  \<^verbatim>\<open>timeB.getTime() - timeA.getTime()\<close> orders by descending time, that is by ascending
  negated time.
\<close>

definition isLive :: "SecretVersion \<Rightarrow> bool" where
  "isLive v = (state v = ENABLED \<or> state v = DISABLED)"

text \<open>\<^verbatim>\<open>a.createTime?.seconds ? Number(a.createTime.seconds) * 1000 : 0\<close>\<close>

definition versionTime :: "SecretVersion \<Rightarrow> int" where
  "versionTime v =
     (case createTime_seconds v of
        None \<Rightarrow> 0
      | Some s \<Rightarrow> (if s \<noteq> 0 then s * 1000 else 0))"

definition sortedVersions :: "SecretVersion list \<Rightarrow> SecretVersion list" where
  "sortedVersions versions = sort_key (\<lambda>v. - versionTime v) (filter isLive versions)"

text \<open>\<^verbatim>\<open>deletePolicy.maxVersions && deletePolicy.maxVersions > 0\<close>, then \<^verbatim>\<open>slice\<close>.\<close>

definition excessVersions :: "DeletePolicy \<Rightarrow> SecretVersion list \<Rightarrow> SecretVersion list" where
  "excessVersions p sortedVs =
     (case maxVersions p of
        None \<Rightarrow> []
      | Some n \<Rightarrow> (if n > 0 then drop (nat n) sortedVs else []))"

text \<open>The predicate of the age filter, for a cut-off in milliseconds.\<close>

definition olderThan :: "int \<Rightarrow> SecretVersion \<Rightarrow> bool" where
  "olderThan cutoff v =
     (case createTime_seconds v of
        None \<Rightarrow> False
      | Some s \<Rightarrow> (if s = 0 then False else s * 1000 < cutoff))"

text \<open>
  The cut-off is \<^verbatim>\<open>new Date()\<close> moved back by \<^verbatim>\<open>setDate(getDate() - maxAgeDays)\<close>, a
  step in the local calendar of the process. The clock and the calendar are taken as a
  parameter \<open>daysAgo\<close>: \<open>daysAgo d\<close> is the time in milliseconds of the current instant
  moved back by \<open>d\<close> calendar days. In a zone without clock changes it is
  \<^term>\<open>utcDaysAgo now\<close>.
\<close>

definition utcDaysAgo :: "int \<Rightarrow> int \<Rightarrow> int" where
  "utcDaysAgo now d = now - d * 86400000"

definition oldVersions ::
  "(int \<Rightarrow> int) \<Rightarrow> DeletePolicy \<Rightarrow> SecretVersion list \<Rightarrow> SecretVersion list" where
  "oldVersions daysAgo p sortedVs =
     (case maxAgeDays p of
        None \<Rightarrow> []
      | Some d \<Rightarrow> (if d > 0 then filter (olderThan (daysAgo d)) sortedVs else []))"

text \<open>
  \<^verbatim>\<open>oldVersions.forEach(...)\<close>: push each old version whose name is not yet among the
  marked ones.
\<close>

fun pushNew :: "SecretVersion list \<Rightarrow> SecretVersion list \<Rightarrow> SecretVersion list" where
  "pushNew versionsToDestroy [] = versionsToDestroy"
| "pushNew versionsToDestroy (oldVersion # rest) =
     (if find (\<lambda>v. name v = name oldVersion) versionsToDestroy = None
      then pushNew (versionsToDestroy @ [oldVersion]) rest
      else pushNew versionsToDestroy rest)"

definition markedVersions ::
  "(int \<Rightarrow> int) \<Rightarrow> DeletePolicy \<Rightarrow> SecretVersion list \<Rightarrow> SecretVersion list" where
  "markedVersions daysAgo p sortedVs =
     pushNew (excessVersions p sortedVs) (oldVersions daysAgo p sortedVs)"

text \<open>\<^verbatim>\<open>versionsToDestroy.splice(-1, 1)\<close> drops the last element, if there is one.\<close>

definition keepOne :: "SecretVersion list \<Rightarrow> SecretVersion list \<Rightarrow> SecretVersion list" where
  "keepOne sortedVs marked =
     (if length marked \<ge> length sortedVs then butlast marked else marked)"

text \<open>
  The whole decision, from the array that the listing returned. The first test is the early
  return \<^verbatim>\<open>versions.length <= 1\<close>, made on the unfiltered array.
\<close>

definition versionsToDestroy ::
  "(int \<Rightarrow> int) \<Rightarrow> DeletePolicy \<Rightarrow> SecretVersion list \<Rightarrow> SecretVersion list" where
  "versionsToDestroy daysAgo p versions =
     (if length versions \<le> 1 then []
      else keepOne (sortedVersions versions) (markedVersions daysAgo p (sortedVersions versions)))"

section \<open>The Secret Manager client and the trace of a run\<close>

text \<open>
  \<^verbatim>\<open>SecretManagerServiceClient\<close> belongs to a library outside the repository. It is a
  parameter of the model: each method takes the state \<open>'w\<close> of the outside world and
  returns either the \<^verbatim>\<open>Error\<close> it rejects with or its value, and the next state. Nothing
  is assumed about it. The arguments are those the source passes: the path of the secret
  (or of the version), the payload, the page size.
\<close>

record 'w SecretManagerServiceClient =
  getSecret :: "string \<Rightarrow> 'w \<Rightarrow> (Error + unit) \<times> 'w"
  addSecretVersion :: "string \<Rightarrow> string \<Rightarrow> 'w \<Rightarrow> (Error + SecretVersion) \<times> 'w"
  createSecret :: "string \<Rightarrow> string \<Rightarrow> 'w \<Rightarrow> (Error + unit) \<times> 'w"
  listSecretVersions :: "string \<Rightarrow> nat \<Rightarrow> 'w \<Rightarrow> (Error + SecretVersion list) \<times> 'w"
  destroySecretVersion :: "string \<Rightarrow> 'w \<Rightarrow> (Error + unit) \<times> 'w"

text \<open>
  A run is observed through the requests it sends and the lines it prints, in order. A
  console line keeps the values interpolated into the message of the source.
\<close>

datatype Request =
    GetSecret string
  | AddSecretVersion string string
  | CreateSecret string string
  | ListSecretVersions string nat
  | DestroySecretVersion string

datatype Console =
    LogUpdatedSecret string "string option"
  | LogCreatedSecret string "string option"
  | LogUploaded string Environment
  | LogCleaningUp nat string
  | LogDestroyed string
  | WarnCouldNotDestroy string string
  | WarnCouldNotCleanUp string string
  | LogCompletedCleanup string Environment
  | LogCompletedCleanupAll Environment

datatype Event = Request Request | Console Console

type_synonym 'w run = "'w \<times> Event list"

definition request :: "('w \<Rightarrow> 'r \<times> 'w) \<Rightarrow> Request \<Rightarrow> 'w run \<Rightarrow> 'r \<times> 'w run" where
  "request call r s = (case call (fst s) of (res, w) \<Rightarrow> (res, (w, snd s @ [Request r])))"

definition console :: "Console \<Rightarrow> 'w run \<Rightarrow> 'w run" where
  "console line s = (fst s, snd s @ [Console line])"

fun destroyRequests :: "Event list \<Rightarrow> string list" where
  "destroyRequests [] = []"
| "destroyRequests (Request (DestroySecretVersion n) # es) = n # destroyRequests es"
| "destroyRequests (e # es) = destroyRequests es"

fun listRequests :: "Event list \<Rightarrow> (string \<times> nat) list" where
  "listRequests [] = []"
| "listRequests (Request (ListSecretVersions parent pageSize) # es) =
     (parent, pageSize) # listRequests es"
| "listRequests (e # es) = listRequests es"

section \<open>GcpMonorepoSecretManager\<close>

record Manager =
  environment :: Environment
  config :: SecretsConfig

definition projectId :: "Manager \<Rightarrow> string" where
  "projectId m = getProjectId (config m) (environment m)"

definition serviceNotFound :: "string \<Rightarrow> Error" where
  "serviceNotFound serviceName =
     Error (''Service '' @ [CHR 0x27] @ serviceName @ [CHR 0x27] @ '' not found in configuration'')"

definition getEnvPath :: "Manager \<Rightarrow> string \<Rightarrow> Error + string" where
  "getEnvPath m serviceName =
     (case getServiceByName (config m) serviceName of
        None \<Rightarrow> Inl (serviceNotFound serviceName)
      | Some service \<Rightarrow>
          Inr (replace (envPath service) ''{env}''
                 (if environment m = staging then ''stg'' else ''prod'')))"

definition getSecretName :: "Manager \<Rightarrow> string \<Rightarrow> Error + string" where
  "getSecretName m serviceName =
     (case getServiceByName (config m) serviceName of
        None \<Rightarrow> Inl (serviceNotFound serviceName)
      | Some service \<Rightarrow> Inr (secretPrefix service @ ''_ENV_FILE''))"

definition secretPathOf :: "Manager \<Rightarrow> string \<Rightarrow> string" where
  "secretPathOf m secretName = ''projects/'' @ projectId m @ ''/secrets/'' @ secretName"

text \<open>\<^verbatim>\<open>if (version.name)\<close>: the name is there and is not the empty string.\<close>

definition hasName :: "SecretVersion \<Rightarrow> bool" where
  "hasName v = (case name v of None \<Rightarrow> False | Some n \<Rightarrow> n \<noteq> [])"

text \<open>
  The destroy loop. The \<^verbatim>\<open>try\<close> around each request turns a rejection into a warning
  and the loop goes on with the next version.
\<close>

fun destroyLoop ::
  "'w SecretManagerServiceClient \<Rightarrow> SecretVersion list \<Rightarrow> 'w run \<Rightarrow> 'w run" where
  "destroyLoop c [] s = s"
| "destroyLoop c (version # rest) s =
     (if hasName version then
        (case request (destroySecretVersion c (the (name version)))
                (DestroySecretVersion (the (name version))) s of
           (Inr u, s1) \<Rightarrow> destroyLoop c rest (console (LogDestroyed (the (name version))) s1)
         | (Inl error, s1) \<Rightarrow>
             destroyLoop c rest
               (console (WarnCouldNotDestroy (the (name version)) (message error)) s1))
      else destroyLoop c rest s)"

text \<open>The body of the outer \<^verbatim>\<open>try\<close> of \<^verbatim>\<open>cleanupSecretVersions\<close>.\<close>

definition cleanupTry ::
  "'w SecretManagerServiceClient \<Rightarrow> (int \<Rightarrow> int) \<Rightarrow> DeletePolicy \<Rightarrow> string \<Rightarrow> string \<Rightarrow>
   'w run \<Rightarrow> (Error + unit) \<times> 'w run" where
  "cleanupTry c daysAgo p secretName secretPath s =
     (case request (listSecretVersions c secretPath 100) (ListSecretVersions secretPath 100) s of
        (Inl error, s1) \<Rightarrow> (Inl error, s1)
      | (Inr versions, s1) \<Rightarrow>
          (let marked = versionsToDestroy daysAgo p versions
           in if length marked > 0
              then (Inr (), destroyLoop c marked
                              (console (LogCleaningUp (length marked) secretName) s1))
              else (Inr (), s1)))"

text \<open>\<^verbatim>\<open>if (!deletePolicy.enabled) return\<close>, then the \<^verbatim>\<open>try\<close> and its \<^verbatim>\<open>catch\<close>.\<close>

definition cleanupSecretVersions ::
  "'w SecretManagerServiceClient \<Rightarrow> (int \<Rightarrow> int) \<Rightarrow> Manager \<Rightarrow> string \<Rightarrow>
   'w run \<Rightarrow> (Error + unit) \<times> 'w run" where
  "cleanupSecretVersions c daysAgo m secretName s =
     (let p = getDeletePolicy (config m)
      in if enabled p \<noteq> Some True then (Inr (), s)
         else (case cleanupTry c daysAgo p secretName (secretPathOf m secretName) s of
                 (Inl error, s1) \<Rightarrow>
                   (Inr (), console (WarnCouldNotCleanUp secretName (message error)) s1)
               | (Inr u, s1) \<Rightarrow> (Inr (), s1)))"

fun cleanupEach ::
  "'w SecretManagerServiceClient \<Rightarrow> (int \<Rightarrow> int) \<Rightarrow> Manager \<Rightarrow> string list \<Rightarrow>
   'w run \<Rightarrow> (Error + unit) \<times> 'w run" where
  "cleanupEach c daysAgo m [] s = (Inr (), s)"
| "cleanupEach c daysAgo m (service # rest) s =
     (case getSecretName m service of
        Inl error \<Rightarrow> (Inl error, s)
      | Inr secretName \<Rightarrow>
          (case cleanupSecretVersions c daysAgo m secretName s of
             (Inl error, s1) \<Rightarrow> (Inl error, s1)
           | (Inr u, s1) \<Rightarrow> cleanupEach c daysAgo m rest s1))"

definition cleanupVersions ::
  "'w SecretManagerServiceClient \<Rightarrow> (int \<Rightarrow> int) \<Rightarrow> Manager \<Rightarrow> string \<Rightarrow>
   'w run \<Rightarrow> (Error + unit) \<times> 'w run" where
  "cleanupVersions c daysAgo m serviceName s =
     (if serviceName = ''all'' then
        (case cleanupEach c daysAgo m (getServiceNames (config m)) s of
           (Inl error, s1) \<Rightarrow> (Inl error, s1)
         | (Inr u, s1) \<Rightarrow> (Inr (), console (LogCompletedCleanupAll (environment m)) s1))
      else
        (case getSecretName m serviceName of
           Inl error \<Rightarrow> (Inl error, s)
         | Inr secretName \<Rightarrow>
             (case cleanupSecretVersions c daysAgo m secretName s of
                (Inl error, s1) \<Rightarrow> (Inl error, s1)
              | (Inr u, s1) \<Rightarrow>
                  (Inr (), console (LogCompletedCleanup serviceName (environment m)) s1))))"

text \<open>
  \<^verbatim>\<open>uploadSingleEnv\<close>. The file system is a parameter \<open>files\<close>, from a path to the
  content of the file there. \<open>uploadTry\<close> is the body of the \<^verbatim>\<open>try\<close>, \<open>uploadCatch\<close>
  its handler.
\<close>

definition uploadTry ::
  "'w SecretManagerServiceClient \<Rightarrow> (int \<Rightarrow> int) \<Rightarrow> Manager \<Rightarrow> string \<Rightarrow> string \<Rightarrow>
   'w run \<Rightarrow> (Error + unit) \<times> 'w run" where
  "uploadTry c daysAgo m secretName envContent s =
     (case request (getSecret c (secretPathOf m secretName))
             (GetSecret (secretPathOf m secretName)) s of
        (Inl error, s1) \<Rightarrow> (Inl error, s1)
      | (Inr u, s1) \<Rightarrow>
          (case request (addSecretVersion c (secretPathOf m secretName) envContent)
                  (AddSecretVersion (secretPathOf m secretName) envContent) s1 of
             (Inl error, s2) \<Rightarrow> (Inl error, s2)
           | (Inr version, s2) \<Rightarrow>
               cleanupSecretVersions c daysAgo m secretName
                 (console (LogUpdatedSecret secretName (name version)) s2)))"

definition uploadCatch ::
  "'w SecretManagerServiceClient \<Rightarrow> Manager \<Rightarrow> string \<Rightarrow> string \<Rightarrow> Error \<Rightarrow>
   'w run \<Rightarrow> (Error + unit) \<times> 'w run" where
  "uploadCatch c m secretName envContent error s =
     (if includes_str (message error) ''NOT_FOUND'' then
        (case request (createSecret c (''projects/'' @ projectId m) secretName)
                (CreateSecret (''projects/'' @ projectId m) secretName) s of
           (Inl e, s1) \<Rightarrow> (Inl e, s1)
         | (Inr u, s1) \<Rightarrow>
             (case request (addSecretVersion c (secretPathOf m secretName) envContent)
                     (AddSecretVersion (secretPathOf m secretName) envContent) s1 of
                (Inl e, s2) \<Rightarrow> (Inl e, s2)
              | (Inr version, s2) \<Rightarrow>
                  (Inr (), console (LogCreatedSecret secretName (name version)) s2)))
      else (Inl error, s))"

definition uploadSingleEnv ::
  "'w SecretManagerServiceClient \<Rightarrow> (int \<Rightarrow> int) \<Rightarrow> (string \<Rightarrow> string option) \<Rightarrow> Manager \<Rightarrow>
   string \<Rightarrow> 'w run \<Rightarrow> (Error + unit) \<times> 'w run" where
  "uploadSingleEnv c daysAgo files m serviceName s =
     (case getEnvPath m serviceName of
        Inl error \<Rightarrow> (Inl error, s)
      | Inr path \<Rightarrow>
          (case files path of
             None \<Rightarrow> (Inl (Error (''Environment file not found at '' @ path)), s)
           | Some envContent \<Rightarrow>
               (case getSecretName m serviceName of
                  Inl error \<Rightarrow> (Inl error, s)
                | Inr secretName \<Rightarrow>
                    (case (case uploadTry c daysAgo m secretName envContent s of
                             (Inl error, s1) \<Rightarrow> uploadCatch c m secretName envContent error s1
                           | (Inr u, s1) \<Rightarrow> (Inr (), s1)) of
                       (Inl error, s2) \<Rightarrow> (Inl error, s2)
                     | (Inr u, s2) \<Rightarrow>
                         (Inr (), console (LogUploaded serviceName (environment m)) s2)))))"

section \<open>Concrete inputs\<close>

text \<open>
  A configuration with one service and no \<^verbatim>\<open>deletePolicy\<close>, so that the default policy
  (10 versions, 30 days, enabled) applies, and version lists for the examples below.
\<close>

definition exampleConfig :: SecretsConfig where
  "exampleConfig =
     \<lparr>services = [\<lparr>service_name = ''api'', envPath = ''.environments/.api.{env}.env'',
                   targetPath = ''apps/api/.env'', secretPrefix = ''API''\<rparr>],
      projectId_staging = ''demo-stg'', projectId_production = ''demo-prod'',
      deletePolicy = None\<rparr>"

definition exampleManager :: Manager where
  "exampleManager = \<lparr>environment = staging, config = exampleConfig\<rparr>"

definition versionName :: "string \<Rightarrow> string" where
  "versionName k = ''projects/demo-stg/secrets/API_ENV_FILE/versions/'' @ k"

definition mkVersion :: "string \<Rightarrow> VersionState \<Rightarrow> int \<Rightarrow> SecretVersion" where
  "mkVersion k st secs = \<lparr>name = Some (versionName k), state = st, createTime_seconds = Some secs\<rparr>"

definition day :: int where
  "day = 86400"

definition t0 :: int where
  "t0 = 1700000000"

text \<open>Three enabled versions, ten days apart, read a hundred days after the first.\<close>

definition threeOldVersions :: "SecretVersion list" where
  "threeOldVersions =
     [mkVersion ''1'' ENABLED t0, mkVersion ''2'' ENABLED (t0 + 10 * day),
      mkVersion ''3'' ENABLED (t0 + 20 * day)]"

definition hundredDaysOn :: "int \<Rightarrow> int" where
  "hundredDaysOn = utcDaysAgo ((t0 + 100 * day) * 1000)"

text \<open>
  One destroyed, one enabled and one disabled old version, and a recent enabled one.
\<close>

definition fourMixedVersions :: "SecretVersion list" where
  "fourMixedVersions =
     [mkVersion ''1'' DESTROYED t0, mkVersion ''2'' ENABLED (t0 + day),
      mkVersion ''3'' DISABLED (t0 + 2 * day), mkVersion ''4'' ENABLED (t0 + 90 * day)]"

text \<open>A single live version among destroyed and unclassified ones, all of them old.\<close>

definition oneLiveVersions :: "SecretVersion list" where
  "oneLiveVersions =
     [mkVersion ''1'' DESTROYED t0, mkVersion ''2'' STATE_UNSPECIFIED (t0 + day),
      mkVersion ''3'' ENABLED (t0 + 2 * day)]"

text \<open>Six enabled versions, a day apart, all older than thirty days when read.\<close>

definition sixOldVersions :: "SecretVersion list" where
  "sixOldVersions =
     [mkVersion ''1'' ENABLED t0, mkVersion ''2'' ENABLED (t0 + day),
      mkVersion ''3'' ENABLED (t0 + 2 * day), mkVersion ''4'' ENABLED (t0 + 3 * day),
      mkVersion ''5'' ENABLED (t0 + 4 * day), mkVersion ''6'' ENABLED (t0 + 5 * day)]"

text \<open>A version without \<^verbatim>\<open>createTime\<close> beside two recent ones, and a policy keeping two.\<close>

definition untimedVersion :: SecretVersion where
  "untimedVersion = \<lparr>name = Some (versionName ''1''), state = ENABLED, createTime_seconds = None\<rparr>"

definition untimedVersions :: "SecretVersion list" where
  "untimedVersions =
     [untimedVersion, mkVersion ''2'' ENABLED (t0 + 99 * day),
      mkVersion ''3'' ENABLED (t0 + 100 * day)]"

definition keepTwoPolicy :: DeletePolicy where
  "keepTwoPolicy = \<lparr>maxVersions = Some 2, maxAgeDays = Some 30, enabled = Some True\<rparr>"

text \<open>
  A client without state: \<^verbatim>\<open>getSecret\<close> and \<^verbatim>\<open>listSecretVersions\<close> answer as given,
  \<^verbatim>\<open>destroySecretVersion\<close> rejects the names in \<open>failing\<close>, the other methods succeed.
\<close>

definition stubClient ::
  "(Error + unit) \<Rightarrow> (Error + SecretVersion list) \<Rightarrow> string list \<Rightarrow>
   unit SecretManagerServiceClient" where
  "stubClient got listing failing =
     \<lparr>getSecret = (\<lambda>path w. (got, w)),
      addSecretVersion = (\<lambda>parent payload w. (Inr (mkVersion ''7'' ENABLED (t0 + 100 * day)), w)),
      createSecret = (\<lambda>parent secretId w. (Inr (), w)),
      listSecretVersions = (\<lambda>parent pageSize w. (listing, w)),
      destroySecretVersion =
        (\<lambda>n w. (if n \<in> set failing then Inl (Error ''RESOURCE_EXHAUSTED'') else Inr (), w))\<rparr>"

text \<open>The environment file of the example service, as the only file of the file system.\<close>

definition exampleFiles :: "string \<Rightarrow> string option" where
  "exampleFiles path =
     (if path = ''.environments/.api.stg.env'' then Some ''NODE_ENV=staging'' else None)"

text \<open>
  A listing of 101 versions: a hundred recent ones and, last, one that is two hundred days
  older.
\<close>

definition manyVersions :: "SecretVersion list" where
  "manyVersions =
     map (\<lambda>i. mkVersion (replicate (Suc i) CHR ''i'') ENABLED (t0 + 200 * day)) [0..<100]
     @ [mkVersion ''oldest'' ENABLED t0]"

definition twoHundredDaysOn :: "int \<Rightarrow> int" where
  "twoHundredDaysOn = utcDaysAgo ((t0 + 200 * day) * 1000)"

text \<open>
  Twelve enabled versions created one day apart, oldest first, read at the creation time of
  the newest, under a policy of five versions and three days.
\<close>

definition twelveVersions :: "SecretVersion list" where
  "twelveVersions =
     [mkVersion ''1'' ENABLED t0, mkVersion ''2'' ENABLED (t0 + day),
      mkVersion ''3'' ENABLED (t0 + 2 * day), mkVersion ''4'' ENABLED (t0 + 3 * day),
      mkVersion ''5'' ENABLED (t0 + 4 * day), mkVersion ''6'' ENABLED (t0 + 5 * day),
      mkVersion ''7'' ENABLED (t0 + 6 * day), mkVersion ''8'' ENABLED (t0 + 7 * day),
      mkVersion ''9'' ENABLED (t0 + 8 * day), mkVersion ''10'' ENABLED (t0 + 9 * day),
      mkVersion ''11'' ENABLED (t0 + 10 * day), mkVersion ''12'' ENABLED (t0 + 11 * day)]"

definition fiveVersionsThreeDays :: DeletePolicy where
  "fiveVersionsThreeDays = \<lparr>maxVersions = Some 5, maxAgeDays = Some 3, enabled = Some True\<rparr>"

definition atTheNewest :: "int \<Rightarrow> int" where
  "atTheNewest = utcDaysAgo ((t0 + 11 * day) * 1000)"

section \<open>Properties of the selection\<close>

lemma set_pushNew: "set (pushNew acc xs) \<subseteq> set acc \<union> set xs"
proof (induction xs arbitrary: acc)
  case Nil
  then show ?case by simp
next
  case (Cons x xs)
  from Cons.IH [of acc] Cons.IH [of "acc @ [x]"] show ?case by auto
qed

lemma length_pushNew:
  "length (pushNew acc xs) \<le> length acc + length (filter (\<lambda>v. name v \<notin> name ` set acc) xs)"
proof (induction xs arbitrary: acc)
  case Nil
  then show ?case by simp
next
  case (Cons x xs)
  show ?case
  proof (cases "find (\<lambda>v. name v = name x) acc = None")
    case True
    then have nx: "name x \<notin> name ` set acc"
      by (auto simp: find_None_iff)
    have "length (filter (\<lambda>v. name v \<notin> name ` set (acc @ [x])) xs)
            \<le> length (filter (\<lambda>v. name v \<notin> name ` set acc) xs)"
      by (induction xs) auto
    with Cons.IH [of "acc @ [x]"] True nx show ?thesis by simp
  next
    case False
    then have "name x \<in> name ` set acc"
      by (auto simp: find_None_iff intro: rev_image_eqI)
    with Cons.IH [of acc] False show ?thesis by auto
  qed
qed

lemma set_excessVersions: "set (excessVersions p s) \<subseteq> set s"
  by (auto simp: excessVersions_def split: option.splits dest: in_set_dropD)

lemma set_oldVersions: "set (oldVersions daysAgo p s) \<subseteq> set s"
  by (auto simp: oldVersions_def split: option.splits)

lemma set_markedVersions: "set (markedVersions daysAgo p s) \<subseteq> set s"
  using set_pushNew [of "excessVersions p s" "oldVersions daysAgo p s"]
    set_excessVersions [of p s] set_oldVersions [of daysAgo p s]
  by (auto simp: markedVersions_def)

text \<open>
  An old version that sits in the sliced tail has its name among the marked ones already,
  so only versions of the kept head can be pushed.
\<close>

lemma length_fresh_drop:
  "length (drop k s) + length (filter (\<lambda>v. name v \<notin> name ` set (drop k s)) (filter P s))
     \<le> length s"
proof -
  have split: "length (take k s) + length (drop k s) = length s"
    by (metis append_take_drop_id length_append)
  have "filter (\<lambda>v. name v \<notin> name ` set (drop k s)) (filter P (drop k s)) = []"
    by (auto simp: filter_empty_conv)
  then have "filter (\<lambda>v. name v \<notin> name ` set (drop k s)) (filter P s)
           = filter (\<lambda>v. name v \<notin> name ` set (drop k s)) (filter P (take k s))"
    by (metis append_Nil2 append_take_drop_id filter_append)
  also have "length \<dots> \<le> length (take k s)"
    by (meson le_trans length_filter_le)
  finally show ?thesis using split by linarith
qed

lemma length_markedVersions: "length (markedVersions daysAgo p s) \<le> length s"
proof -
  let ?ex = "excessVersions p s" and ?old = "oldVersions daysAgo p s"
  have old: "\<exists>P. ?old = filter P s"
    by (auto simp: oldVersions_def split: option.splits intro: exI [of _ "\<lambda>_. False"])
  then obtain P where P: "?old = filter P s" ..
  have "length ?ex + length (filter (\<lambda>v. name v \<notin> name ` set ?ex) ?old) \<le> length s"
  proof (cases "\<exists>n. maxVersions p = Some n \<and> n > 0")
    case True
    then obtain n where n: "maxVersions p = Some n" "n > 0" by auto
    then have ex: "?ex = drop (nat n) s" by (simp add: excessVersions_def)
    show ?thesis
      unfolding ex P using length_fresh_drop [of "nat n" s P] by simp
  next
    case False
    then have "?ex = []" by (auto simp: excessVersions_def split: option.splits)
    then show ?thesis unfolding P by simp
  qed
  with length_pushNew [of ?ex ?old] show ?thesis
    by (simp add: markedVersions_def)
qed

lemma length_sortedVersions: "length (sortedVersions vs) = length (filter isLive vs)"
  by (simp add: sortedVersions_def)

lemma set_sortedVersions: "set (sortedVersions vs) = {v \<in> set vs. isLive v}"
  by (auto simp: sortedVersions_def)

lemma length_keepOne:
  "s \<noteq> [] \<Longrightarrow> length marked \<le> length s \<Longrightarrow> length (keepOne s marked) < length s"
  by (cases s) (auto simp: keepOne_def)

lemma set_keepOne: "set (keepOne s marked) \<subseteq> set marked"
  by (auto simp: keepOne_def dest: in_set_butlastD)

lemma set_versionsToDestroy:
  "set (versionsToDestroy daysAgo p vs) \<subseteq> {v \<in> set vs. isLive v}"
  using set_keepOne [of "sortedVersions vs" "markedVersions daysAgo p (sortedVersions vs)"]
    set_markedVersions [of daysAgo p "sortedVersions vs"]
  by (auto simp: versionsToDestroy_def set_sortedVersions)

lemma length_versionsToDestroy:
  assumes "filter isLive vs \<noteq> []"
  shows "length (versionsToDestroy daysAgo p vs) < length (filter isLive vs)"
proof (cases "length vs \<le> 1")
  case True
  with assms show ?thesis by (simp add: versionsToDestroy_def)
next
  case False
  from assms have "sortedVersions vs \<noteq> []"
    using length_sortedVersions [of vs] by auto
  then have "length (keepOne (sortedVersions vs) (markedVersions daysAgo p (sortedVersions vs)))
               < length (sortedVersions vs)"
    by (rule length_keepOne) (rule length_markedVersions)
  with False show ?thesis by (simp add: versionsToDestroy_def length_sortedVersions)
qed

lemma threeOld_selected:
  "versionsToDestroy hundredDaysOn (getDeletePolicy exampleConfig) threeOldVersions
     = [mkVersion ''3'' ENABLED (t0 + 20 * day), mkVersion ''2'' ENABLED (t0 + 10 * day)]"
  by code_simp

section \<open>Properties of a run\<close>

lemma destroyRequests_append:
  "destroyRequests (xs @ ys) = destroyRequests xs @ destroyRequests ys"
  by (induction xs rule: destroyRequests.induct) auto

lemma listRequests_append:
  "listRequests (xs @ ys) = listRequests xs @ listRequests ys"
  by (induction xs rule: listRequests.induct) auto

lemma destroyRequests_destroyLoop:
  "destroyRequests (snd (destroyLoop c marked s))
     = destroyRequests (snd s) @ map (\<lambda>v. the (name v)) (filter hasName marked)"
proof (induction marked arbitrary: s)
  case Nil
  then show ?case by simp
next
  case (Cons v rest)
  show ?case
  proof (cases "hasName v")
    case False
    with Cons.IH [of s] show ?thesis by simp
  next
    case True
    obtain r w where call: "destroySecretVersion c (the (name v)) (fst s) = (r, w)"
      by (cases "destroySecretVersion c (the (name v)) (fst s)")
    show ?thesis
    proof (cases r)
      case (Inl e)
      with True call show ?thesis
        by (simp add: Cons.IH request_def console_def destroyRequests_append)
    next
      case (Inr u)
      with True call show ?thesis
        by (simp add: Cons.IH request_def console_def destroyRequests_append)
    qed
  qed
qed

lemma listRequests_destroyLoop:
  "listRequests (snd (destroyLoop c marked s)) = listRequests (snd s)"
proof (induction marked arbitrary: s)
  case Nil
  then show ?case by simp
next
  case (Cons v rest)
  show ?case
  proof (cases "hasName v")
    case False
    with Cons.IH [of s] show ?thesis by simp
  next
    case True
    obtain r w where call: "destroySecretVersion c (the (name v)) (fst s) = (r, w)"
      by (cases "destroySecretVersion c (the (name v)) (fst s)")
    show ?thesis
    proof (cases r)
      case (Inl e)
      with True call show ?thesis
        by (simp add: Cons.IH request_def console_def listRequests_append)
    next
      case (Inr u)
      with True call show ?thesis
        by (simp add: Cons.IH request_def console_def listRequests_append)
    qed
  qed
qed

lemma cleanupTry_listing_fails:
  assumes "fst (listSecretVersions c path 100 (fst s)) = Inl e"
  shows "cleanupTry c daysAgo p secretName path s
           = (Inl e, (snd (listSecretVersions c path 100 (fst s)),
                      snd s @ [Request (ListSecretVersions path 100)]))"
  using assms
  by (cases "listSecretVersions c path 100 (fst s)") (simp add: cleanupTry_def request_def)

lemma cleanupTry_listing_ok:
  assumes "fst (listSecretVersions c path 100 (fst s)) = Inr versions"
  shows "fst (cleanupTry c daysAgo p secretName path s) = Inr ()"
    and "destroyRequests (snd (snd (cleanupTry c daysAgo p secretName path s)))
           = destroyRequests (snd s)
             @ map (\<lambda>v. the (name v)) (filter hasName (versionsToDestroy daysAgo p versions))"
    and "listRequests (snd (snd (cleanupTry c daysAgo p secretName path s)))
           = listRequests (snd s) @ [(path, 100)]"
  using assms
  by (cases "listSecretVersions c path 100 (fst s)";
      simp add: cleanupTry_def request_def console_def Let_def destroyRequests_destroyLoop
        listRequests_destroyLoop destroyRequests_append listRequests_append)+

lemma cleanupSecretVersions_returns:
  "fst (cleanupSecretVersions c daysAgo m secretName s) = Inr ()"
  by (simp add: cleanupSecretVersions_def Let_def split: prod.splits sum.splits)

lemma cleanupSecretVersions_disabled:
  "enabled (getDeletePolicy (config m)) \<noteq> Some True \<Longrightarrow>
   cleanupSecretVersions c daysAgo m secretName s = (Inr (), s)"
  by (simp add: cleanupSecretVersions_def)

lemma cleanupSecretVersions_listing_fails:
  assumes "enabled (getDeletePolicy (config m)) = Some True"
    and "fst (listSecretVersions c (secretPathOf m secretName) 100 (fst s)) = Inl e"
  shows "cleanupSecretVersions c daysAgo m secretName s
           = (Inr (), (snd (listSecretVersions c (secretPathOf m secretName) 100 (fst s)),
                       snd s @ [Request (ListSecretVersions (secretPathOf m secretName) 100),
                                Console (WarnCouldNotCleanUp secretName (message e))]))"
  using assms
  by (simp add: cleanupSecretVersions_def cleanupTry_listing_fails console_def)

lemma cleanupSecretVersions_listing_ok:
  assumes "enabled (getDeletePolicy (config m)) = Some True"
    and "fst (listSecretVersions c (secretPathOf m secretName) 100 (fst s)) = Inr versions"
  shows "destroyRequests (snd (snd (cleanupSecretVersions c daysAgo m secretName s)))
           = destroyRequests (snd s)
             @ map (\<lambda>v. the (name v))
                 (filter hasName (versionsToDestroy daysAgo (getDeletePolicy (config m)) versions))"
    and "listRequests (snd (snd (cleanupSecretVersions c daysAgo m secretName s)))
           = listRequests (snd s) @ [(secretPathOf m secretName, 100)]"
  using assms cleanupTry_listing_ok [OF assms(2), of daysAgo "getDeletePolicy (config m)" secretName]
  by (auto simp: cleanupSecretVersions_def split: prod.splits sum.splits)

text \<open>Every destroy request of a run that was not sent before names a selected version.\<close>

lemma cleanupSecretVersions_requests:
  "\<exists>sel. destroyRequests (snd (snd (cleanupSecretVersions c daysAgo m secretName s)))
            = destroyRequests (snd s) @ map (\<lambda>v. the (name v)) (filter hasName sel)
        \<and> (sel = [] \<or>
            (\<exists>versions.
               fst (listSecretVersions c (secretPathOf m secretName) 100 (fst s)) = Inr versions
               \<and> sel = versionsToDestroy daysAgo (getDeletePolicy (config m)) versions))"
proof (cases "enabled (getDeletePolicy (config m)) = Some True")
  case False
  then show ?thesis
    by (intro exI [of _ "[]"]) (simp add: cleanupSecretVersions_disabled)
next
  case True
  show ?thesis
  proof (cases "fst (listSecretVersions c (secretPathOf m secretName) 100 (fst s))")
    case (Inl e)
    from cleanupSecretVersions_listing_fails [OF True Inl] show ?thesis
      by (intro exI [of _ "[]"]) (simp add: destroyRequests_append)
  next
    case (Inr versions)
    from cleanupSecretVersions_listing_ok(1) [OF True Inr] Inr show ?thesis
      by (intro exI [of _ "versionsToDestroy daysAgo (getDeletePolicy (config m)) versions"])
        simp
  qed
qed

lemma keepOne_small:
  assumes "length s \<le> 1"
  shows "keepOne s (markedVersions daysAgo p s) = []"
proof (cases "s = []")
  case True
  with set_markedVersions [of daysAgo p s] show ?thesis
    by (simp add: keepOne_def)
next
  case False
  from length_keepOne [OF False length_markedVersions [of daysAgo p s]] assms
  have "length (keepOne s (markedVersions daysAgo p s)) = 0" by linarith
  then show ?thesis by simp
qed

lemma versionsToDestroy_eq:
  "versionsToDestroy daysAgo p vs
     = keepOne (sortedVersions vs) (markedVersions daysAgo p (sortedVersions vs))"
proof (cases "length vs \<le> 1")
  case True
  have "length (filter isLive vs) \<le> length vs" by simp
  with True have "length (filter isLive vs) \<le> 1" by linarith
  then have "length (sortedVersions vs) \<le> 1"
    by (simp only: length_sortedVersions)
  with True show ?thesis
    by (simp add: versionsToDestroy_def keepOne_small)
next
  case False
  then show ?thesis by (simp add: versionsToDestroy_def)
qed

section \<open>The claims\<close>

text \<open>
  C1 (floor invariant). Whatever the policy, the clock and the listed versions, when the
  live set (state ENABLED or DISABLED) is not empty the list of versions selected for
  destruction is strictly shorter than the live set. When the live versions have distinct
  names, as the store guarantees, some live version is named by no selected version: it
  survives the run.
\<close>

theorem floor_invariant:
  assumes "filter isLive versions \<noteq> []"
  shows "length (versionsToDestroy daysAgo p versions) < length (filter isLive versions)
       \<and> (distinct (map name (filter isLive versions)) \<longrightarrow>
            (\<exists>v \<in> set (filter isLive versions).
               name v \<notin> name ` set (versionsToDestroy daysAgo p versions)))"
proof (intro conjI impI)
  let ?D = "versionsToDestroy daysAgo p versions" and ?L = "filter isLive versions"
  show len: "length ?D < length ?L"
    using assms by (rule length_versionsToDestroy)
  assume d: "distinct (map name ?L)"
  have "card (name ` set ?D) \<le> length ?D"
    by (metis card_length length_map set_map)
  also note len
  also have "length ?L = card (name ` set ?L)"
    using d by (metis distinct_card length_map set_map)
  finally have "card (name ` set ?D) < card (name ` set ?L)" .
  then have "\<not> name ` set ?L \<subseteq> name ` set ?D"
    by (meson List.finite_set card_mono finite_imageI not_less)
  then show "\<exists>v \<in> set ?L. name v \<notin> name ` set ?D" by auto
qed

theorem floor_invariant_witness:
  "filter isLive threeOldVersions \<noteq> []
   \<and> distinct (map name (filter isLive threeOldVersions))
   \<and> length (versionsToDestroy hundredDaysOn (getDeletePolicy exampleConfig) threeOldVersions)
       < length (filter isLive threeOldVersions)
   \<and> name (mkVersion ''1'' ENABLED t0)
       \<notin> name ` set (versionsToDestroy hundredDaysOn (getDeletePolicy exampleConfig)
                       threeOldVersions)"
proof -
  have live: "filter isLive threeOldVersions \<noteq> []"
    by (simp add: threeOldVersions_def mkVersion_def isLive_def)
  have names: "distinct (map name (filter isLive threeOldVersions))"
    by (simp add: threeOldVersions_def mkVersion_def isLive_def versionName_def)
  have survivor: "name (mkVersion ''1'' ENABLED t0)
       \<notin> name ` set (versionsToDestroy hundredDaysOn (getDeletePolicy exampleConfig)
                       threeOldVersions)"
    unfolding threeOld_selected by (simp add: mkVersion_def versionName_def)
  from floor_invariant [OF live, of hundredDaysOn "getDeletePolicy exampleConfig"]
    live names survivor
  show ?thesis by blast
qed

text \<open>
  C7 (no-op on a trivial live set). When at most one listed version is ENABLED or DISABLED,
  whatever other versions the list holds, nothing is selected, and a cleanup run whose
  listing returns that list sends no destroy request.
\<close>

theorem trivial_live_set_destroys_nothing:
  assumes "length (filter isLive versions) \<le> 1"
  shows "versionsToDestroy daysAgo p versions = []
       \<and> (fst (listSecretVersions c (secretPathOf m secretName) 100 (fst s)) = Inr versions \<longrightarrow>
            destroyRequests (snd (snd (cleanupSecretVersions c daysAgo m secretName s)))
              = destroyRequests (snd s))"
proof -
  from assms have "length (sortedVersions versions) \<le> 1"
    by (simp only: length_sortedVersions)
  then have none: "versionsToDestroy daysAgo p versions = []" for p
    by (simp only: versionsToDestroy_eq keepOne_small)
  obtain sel where sel:
    "destroyRequests (snd (snd (cleanupSecretVersions c daysAgo m secretName s)))
       = destroyRequests (snd s) @ map (\<lambda>v. the (name v)) (filter hasName sel)"
    "sel = [] \<or>
       (\<exists>vs. fst (listSecretVersions c (secretPathOf m secretName) 100 (fst s)) = Inr vs
          \<and> sel = versionsToDestroy daysAgo (getDeletePolicy (config m)) vs)"
    using cleanupSecretVersions_requests [of c daysAgo m secretName s] by blast
  have "fst (listSecretVersions c (secretPathOf m secretName) 100 (fst s)) = Inr versions
          \<Longrightarrow> sel = []"
    using sel(2) none by auto
  with sel(1) none show ?thesis by simp
qed

theorem trivial_live_set_destroys_nothing_witness:
  "length (filter isLive oneLiveVersions) \<le> 1
   \<and> versionsToDestroy hundredDaysOn (getDeletePolicy exampleConfig) oneLiveVersions = []
   \<and> destroyRequests (snd (snd (cleanupSecretVersions
        (stubClient (Inr ()) (Inr oneLiveVersions) []) hundredDaysOn exampleManager
        ''API_ENV_FILE'' ((), [])))) = []"
proof -
  have one: "length (filter isLive oneLiveVersions) \<le> 1"
    by (simp add: oneLiveVersions_def mkVersion_def isLive_def)
  have listing: "fst (listSecretVersions (stubClient (Inr ()) (Inr oneLiveVersions) [])
      (secretPathOf exampleManager ''API_ENV_FILE'') 100 (fst ((), []))) = Inr oneLiveVersions"
    by (simp add: stubClient_def)
  from trivial_live_set_destroys_nothing [OF one, of hundredDaysOn "getDeletePolicy exampleConfig"
      "stubClient (Inr ()) (Inr oneLiveVersions) []" exampleManager "''API_ENV_FILE''" "((), [])"]
    one listing
  show ?thesis by simp
qed

text \<open>
  C8 (only live versions are destroyed). Every selected version is one of the listed versions
  and its state is ENABLED or DISABLED; and every destroy request that a cleanup run adds to
  the trace carries the name of such a version of the list that the run's listing returned.
  Only the ENABLED and DISABLED versions enter the retention accounting: the selection from
  a list is the selection from its live versions alone, so a version in any other state
  neither fills a place among the \<^verbatim>\<open>maxVersions\<close> kept nor counts towards the floor.
\<close>

theorem only_live_versions_destroyed:
  "(\<forall>v \<in> set (versionsToDestroy daysAgo p versions).
      v \<in> set versions \<and> (state v = ENABLED \<or> state v = DISABLED))
   \<and> (\<forall>n \<in> set (destroyRequests (snd (snd (cleanupSecretVersions c daysAgo m secretName s)))).
        n \<in> set (destroyRequests (snd s))
        \<or> (\<exists>listed v.
             fst (listSecretVersions c (secretPathOf m secretName) 100 (fst s)) = Inr listed
             \<and> v \<in> set listed \<and> (state v = ENABLED \<or> state v = DISABLED)
             \<and> name v = Some n))
   \<and> versionsToDestroy daysAgo p versions = versionsToDestroy daysAgo p (filter isLive versions)"
proof (rule conjI [OF _ conjI]; (rule ballI)?)
  fix v assume "v \<in> set (versionsToDestroy daysAgo p versions)"
  with set_versionsToDestroy [of daysAgo p versions]
  show "v \<in> set versions \<and> (state v = ENABLED \<or> state v = DISABLED)"
    by (auto simp: isLive_def)
next
  fix n
  assume n: "n \<in> set (destroyRequests (snd (snd (cleanupSecretVersions c daysAgo m secretName s))))"
  obtain sel where sel:
    "destroyRequests (snd (snd (cleanupSecretVersions c daysAgo m secretName s)))
       = destroyRequests (snd s) @ map (\<lambda>v. the (name v)) (filter hasName sel)"
    "sel = [] \<or>
       (\<exists>vs. fst (listSecretVersions c (secretPathOf m secretName) 100 (fst s)) = Inr vs
          \<and> sel = versionsToDestroy daysAgo (getDeletePolicy (config m)) vs)"
    using cleanupSecretVersions_requests [of c daysAgo m secretName s] by blast
  show "n \<in> set (destroyRequests (snd s))
        \<or> (\<exists>listed v.
             fst (listSecretVersions c (secretPathOf m secretName) 100 (fst s)) = Inr listed
             \<and> v \<in> set listed \<and> (state v = ENABLED \<or> state v = DISABLED)
             \<and> name v = Some n)"
  proof (cases "n \<in> set (destroyRequests (snd s))")
    case True
    then show ?thesis ..
  next
    case False
    with n sel(1) obtain v where v: "v \<in> set sel" "hasName v" "n = the (name v)"
      by auto
    then have "sel \<noteq> []" by auto
    with sel(2) obtain vs where vs:
      "fst (listSecretVersions c (secretPathOf m secretName) 100 (fst s)) = Inr vs"
      "sel = versionsToDestroy daysAgo (getDeletePolicy (config m)) vs"
      by auto
    from v(1) vs(2) set_versionsToDestroy [of daysAgo "getDeletePolicy (config m)" vs]
    have "v \<in> set vs" "state v = ENABLED \<or> state v = DISABLED"
      by (auto simp: isLive_def)
    moreover from v(2,3) have "name v = Some n"
      by (auto simp: hasName_def split: option.splits)
    ultimately show ?thesis using vs(1) by blast
  qed
next
  have "sortedVersions (filter isLive versions) = sortedVersions versions"
    by (simp add: sortedVersions_def)
  then show "versionsToDestroy daysAgo p versions
               = versionsToDestroy daysAgo p (filter isLive versions)"
    by (simp only: versionsToDestroy_eq)
qed

lemma fourMixed_selected:
  "versionsToDestroy hundredDaysOn (getDeletePolicy exampleConfig) fourMixedVersions
     = [mkVersion ''3'' DISABLED (t0 + 2 * day), mkVersion ''2'' ENABLED (t0 + day)]"
  by code_simp

theorem only_live_versions_destroyed_witness:
  "mkVersion ''3'' DISABLED (t0 + 2 * day)
     \<in> set (versionsToDestroy hundredDaysOn (getDeletePolicy exampleConfig) fourMixedVersions)
   \<and> mkVersion ''3'' DISABLED (t0 + 2 * day) \<in> set fourMixedVersions
   \<and> state (mkVersion ''3'' DISABLED (t0 + 2 * day)) = DISABLED
   \<and> mkVersion ''1'' DESTROYED t0
     \<notin> set (versionsToDestroy hundredDaysOn (getDeletePolicy exampleConfig) fourMixedVersions)
   \<and> filter isLive fourMixedVersions
     = [mkVersion ''2'' ENABLED (t0 + day), mkVersion ''3'' DISABLED (t0 + 2 * day),
        mkVersion ''4'' ENABLED (t0 + 90 * day)]
   \<and> versionsToDestroy hundredDaysOn (getDeletePolicy exampleConfig)
        [mkVersion ''2'' ENABLED (t0 + day), mkVersion ''3'' DISABLED (t0 + 2 * day),
         mkVersion ''4'' ENABLED (t0 + 90 * day)]
     = [mkVersion ''3'' DISABLED (t0 + 2 * day), mkVersion ''2'' ENABLED (t0 + day)]"
proof -
  have sel: "mkVersion ''3'' DISABLED (t0 + 2 * day)
     \<in> set (versionsToDestroy hundredDaysOn (getDeletePolicy exampleConfig) fourMixedVersions)"
    unfolding fourMixed_selected by simp
  have st: "state (mkVersion ''3'' DISABLED (t0 + 2 * day)) = DISABLED"
    "state (mkVersion ''1'' DESTROYED t0) = DESTROYED"
    by (simp_all add: mkVersion_def)
  have live: "filter isLive fourMixedVersions
     = [mkVersion ''2'' ENABLED (t0 + day), mkVersion ''3'' DISABLED (t0 + 2 * day),
        mkVersion ''4'' ENABLED (t0 + 90 * day)]"
    by (simp add: fourMixedVersions_def mkVersion_def isLive_def)
  note th = only_live_versions_destroyed [of hundredDaysOn "getDeletePolicy exampleConfig"
      fourMixedVersions "stubClient (Inr ()) (Inr fourMixedVersions) []"
      exampleManager "''API_ENV_FILE''" "((), [])"]
  from conjunct1 [OF th]
  have all: "\<forall>v \<in> set (versionsToDestroy hundredDaysOn (getDeletePolicy exampleConfig)
                 fourMixedVersions).
      v \<in> set fourMixedVersions \<and> (state v = ENABLED \<or> state v = DISABLED)" .
  from conjunct2 [OF conjunct2 [OF th]]
  have "versionsToDestroy hundredDaysOn (getDeletePolicy exampleConfig)
          (filter isLive fourMixedVersions)
     = [mkVersion ''3'' DISABLED (t0 + 2 * day), mkVersion ''2'' ENABLED (t0 + day)]"
    by (simp only: fourMixed_selected)
  then have liveSel: "versionsToDestroy hundredDaysOn (getDeletePolicy exampleConfig)
        [mkVersion ''2'' ENABLED (t0 + day), mkVersion ''3'' DISABLED (t0 + 2 * day),
         mkVersion ''4'' ENABLED (t0 + 90 * day)]
     = [mkVersion ''3'' DISABLED (t0 + 2 * day), mkVersion ''2'' ENABLED (t0 + day)]"
    by (simp only: live)
  have mem: "mkVersion ''3'' DISABLED (t0 + 2 * day) \<in> set fourMixedVersions"
    "mkVersion ''1'' DESTROYED t0
       \<notin> set (versionsToDestroy hundredDaysOn (getDeletePolicy exampleConfig) fourMixedVersions)"
    using all sel st by auto
  from sel mem st(1) live liveSel show ?thesis by blast
qed

text \<open>
  C6 (per-item failure isolation). Whatever the client answers to each destroy request, the
  destroy loop sends one request for every candidate that has a name, in the order of the
  candidates: a rejected request neither stops the loop nor skips a later candidate. (A
  candidate without a name has nothing to send: when all of them are named, all of them are
  attempted.) A cleanup run whose listing succeeds therefore attempts every selected version,
  and the run itself returns normally for every client.
\<close>

theorem destroy_failures_isolated:
  "destroyRequests (snd (destroyLoop c marked s))
     = destroyRequests (snd s) @ map (\<lambda>v. the (name v)) (filter hasName marked)
   \<and> ((\<forall>v \<in> set marked. hasName v) \<longrightarrow>
        destroyRequests (snd (destroyLoop c marked s))
          = destroyRequests (snd s) @ map (\<lambda>v. the (name v)) marked)
   \<and> (enabled (getDeletePolicy (config m)) = Some True
        \<and> fst (listSecretVersions c (secretPathOf m secretName) 100 (fst s)) = Inr versions \<longrightarrow>
        destroyRequests (snd (snd (cleanupSecretVersions c daysAgo m secretName s)))
          = destroyRequests (snd s)
            @ map (\<lambda>v. the (name v))
                (filter hasName (versionsToDestroy daysAgo (getDeletePolicy (config m)) versions)))
   \<and> fst (cleanupSecretVersions c daysAgo m secretName s) = Inr ()"
proof (intro conjI impI)
  show "destroyRequests (snd (destroyLoop c marked s))
     = destroyRequests (snd s) @ map (\<lambda>v. the (name v)) (filter hasName marked)"
    by (rule destroyRequests_destroyLoop)
next
  assume "\<forall>v \<in> set marked. hasName v"
  then have "filter hasName marked = marked" by simp
  then show "destroyRequests (snd (destroyLoop c marked s))
          = destroyRequests (snd s) @ map (\<lambda>v. the (name v)) marked"
    by (simp add: destroyRequests_destroyLoop)
next
  assume "enabled (getDeletePolicy (config m)) = Some True
        \<and> fst (listSecretVersions c (secretPathOf m secretName) 100 (fst s)) = Inr versions"
  then show "destroyRequests (snd (snd (cleanupSecretVersions c daysAgo m secretName s)))
          = destroyRequests (snd s)
            @ map (\<lambda>v. the (name v))
                (filter hasName (versionsToDestroy daysAgo (getDeletePolicy (config m)) versions))"
    by (simp add: cleanupSecretVersions_listing_ok(1))
next
  show "fst (cleanupSecretVersions c daysAgo m secretName s) = Inr ()"
    by (rule cleanupSecretVersions_returns)
qed

lemma sixOld_selected:
  "versionsToDestroy hundredDaysOn (getDeletePolicy exampleConfig) sixOldVersions
     = [mkVersion ''6'' ENABLED (t0 + 5 * day), mkVersion ''5'' ENABLED (t0 + 4 * day),
        mkVersion ''4'' ENABLED (t0 + 3 * day), mkVersion ''3'' ENABLED (t0 + 2 * day),
        mkVersion ''2'' ENABLED (t0 + day)]"
  by code_simp

text \<open>
  Five candidates, the second and the fourth rejected: five requests, three versions
  destroyed, two warnings.
\<close>

lemma sixOld_trace:
  "cleanupSecretVersions
     (stubClient (Inr ()) (Inr sixOldVersions) [versionName ''5'', versionName ''3''])
     hundredDaysOn exampleManager ''API_ENV_FILE'' ((), [])
   = (Inr (), (),
      [Request (ListSecretVersions ''projects/demo-stg/secrets/API_ENV_FILE'' 100),
       Console (LogCleaningUp 5 ''API_ENV_FILE''),
       Request (DestroySecretVersion (versionName ''6'')),
       Console (LogDestroyed (versionName ''6'')),
       Request (DestroySecretVersion (versionName ''5'')),
       Console (WarnCouldNotDestroy (versionName ''5'') ''RESOURCE_EXHAUSTED''),
       Request (DestroySecretVersion (versionName ''4'')),
       Console (LogDestroyed (versionName ''4'')),
       Request (DestroySecretVersion (versionName ''3'')),
       Console (WarnCouldNotDestroy (versionName ''3'') ''RESOURCE_EXHAUSTED''),
       Request (DestroySecretVersion (versionName ''2'')),
       Console (LogDestroyed (versionName ''2''))])"
proof -
  have policy: "getDeletePolicy (config exampleManager) = getDeletePolicy exampleConfig"
    by (simp add: exampleManager_def)
  have path: "secretPathOf exampleManager ''API_ENV_FILE''
                = ''projects/demo-stg/secrets/API_ENV_FILE''"
    by (simp add: secretPathOf_def projectId_def getProjectId_def exampleManager_def
        exampleConfig_def)
  have on: "enabled (getDeletePolicy exampleConfig) = Some True"
    by (simp add: getDeletePolicy_def exampleConfig_def)
  show ?thesis
    unfolding cleanupSecretVersions_def cleanupTry_def policy path
    by (simp add: on request_def console_def stubClient_def sixOld_selected Let_def
        hasName_def mkVersion_def versionName_def)
qed

theorem destroy_failures_isolated_witness:
  "filter hasName (versionsToDestroy hundredDaysOn (getDeletePolicy (config exampleManager))
                    sixOldVersions)
     = versionsToDestroy hundredDaysOn (getDeletePolicy (config exampleManager)) sixOldVersions
   \<and> enabled (getDeletePolicy (config exampleManager)) = Some True
   \<and> fst (listSecretVersions
        (stubClient (Inr ()) (Inr sixOldVersions) [versionName ''5'', versionName ''3''])
        (secretPathOf exampleManager ''API_ENV_FILE'') 100 (fst ((), []))) = Inr sixOldVersions
   \<and> destroyRequests (snd (destroyLoop
        (stubClient (Inr ()) (Inr sixOldVersions) [versionName ''5'', versionName ''3''])
        (versionsToDestroy hundredDaysOn (getDeletePolicy (config exampleManager)) sixOldVersions)
        ((), [])))
      = [versionName ''6'', versionName ''5'', versionName ''4'', versionName ''3'',
         versionName ''2'']
   \<and> destroyRequests (snd (snd (cleanupSecretVersions
        (stubClient (Inr ()) (Inr sixOldVersions) [versionName ''5'', versionName ''3''])
        hundredDaysOn exampleManager ''API_ENV_FILE'' ((), []))))
      = [versionName ''6'', versionName ''5'', versionName ''4'', versionName ''3'',
         versionName ''2'']
   \<and> fst (cleanupSecretVersions
        (stubClient (Inr ()) (Inr sixOldVersions) [versionName ''5'', versionName ''3''])
        hundredDaysOn exampleManager ''API_ENV_FILE'' ((), [])) = Inr ()"
proof -
  let ?c = "stubClient (Inr ()) (Inr sixOldVersions) [versionName ''5'', versionName ''3'']"
  let ?sel = "versionsToDestroy hundredDaysOn (getDeletePolicy (config exampleManager))
                sixOldVersions"
  have policy: "getDeletePolicy (config exampleManager) = getDeletePolicy exampleConfig"
    by (simp add: exampleManager_def)
  have named: "filter hasName ?sel = ?sel"
    unfolding policy sixOld_selected by (simp add: hasName_def mkVersion_def versionName_def)
  then have all: "\<forall>v \<in> set ?sel. hasName v"
    by (metis filter_id_conv)
  have on: "enabled (getDeletePolicy (config exampleManager)) = Some True"
    by (simp add: getDeletePolicy_def exampleManager_def exampleConfig_def)
  have listing: "fst (listSecretVersions ?c (secretPathOf exampleManager ''API_ENV_FILE'') 100
                   (fst ((), []))) = Inr sixOldVersions"
    by (simp add: stubClient_def)
  have sel: "map (\<lambda>v. the (name v)) ?sel
     = [versionName ''6'', versionName ''5'', versionName ''4'', versionName ''3'',
        versionName ''2'']"
    unfolding policy sixOld_selected by (simp add: mkVersion_def)
  note th = destroy_failures_isolated [of ?c ?sel "((), [])" exampleManager "''API_ENV_FILE''"
      sixOldVersions hundredDaysOn]
  from conjunct1 [OF conjunct2 [OF th]] all sel
  have loop: "destroyRequests (snd (destroyLoop ?c ?sel ((), [])))
      = [versionName ''6'', versionName ''5'', versionName ''4'', versionName ''3'',
         versionName ''2'']"
    by simp
  from conjunct1 [OF conjunct2 [OF conjunct2 [OF th]]] on listing named sel
  have run: "destroyRequests (snd (snd (cleanupSecretVersions ?c hundredDaysOn exampleManager
          ''API_ENV_FILE'' ((), []))))
      = [versionName ''6'', versionName ''5'', versionName ''4'', versionName ''3'',
         versionName ''2'']"
    by simp
  from conjunct2 [OF conjunct2 [OF conjunct2 [OF th]]]
  have ret: "fst (cleanupSecretVersions ?c hundredDaysOn exampleManager ''API_ENV_FILE''
               ((), [])) = Inr ()" .
  from named on listing loop run ret show ?thesis by blast
qed

text \<open>
  C10 (missing creation time). A version without \<^verbatim>\<open>createTime.seconds\<close> is sorted with
  time 0, the epoch: in the sorted list it comes after every version with a positive time.
  It is never among the age-based candidates, whatever the policy and the cut-off; when it is
  selected, it is as one of the versions beyond \<^verbatim>\<open>maxVersions\<close>.
\<close>

theorem missing_createTime_sorted_last_never_old:
  assumes "createTime_seconds v = None"
  shows "versionTime v = 0
       \<and> v \<notin> set (oldVersions daysAgo p sortedVs)
       \<and> (v \<in> set (versionsToDestroy daysAgo p versions) \<longrightarrow>
            v \<in> set (excessVersions p (sortedVersions versions)))
       \<and> (\<forall>i j. i < length (sortedVersions versions) \<and> j < length (sortedVersions versions)
                 \<and> sortedVersions versions ! i = v
                 \<and> 0 < versionTime (sortedVersions versions ! j) \<longrightarrow> j < i)"
proof (intro conjI impI allI)
  show t: "versionTime v = 0"
    using assms by (simp add: versionTime_def)
  show notold: "v \<notin> set (oldVersions daysAgo p sortedVs)" for sortedVs
    using assms by (auto simp: oldVersions_def olderThan_def split: option.splits)
  {
    assume "v \<in> set (versionsToDestroy daysAgo p versions)"
    then have "v \<in> set (markedVersions daysAgo p (sortedVersions versions))"
      using set_keepOne [of "sortedVersions versions"
          "markedVersions daysAgo p (sortedVersions versions)"]
      by (auto simp: versionsToDestroy_eq)
    with set_pushNew [of "excessVersions p (sortedVersions versions)"
        "oldVersions daysAgo p (sortedVersions versions)"] notold
    show "v \<in> set (excessVersions p (sortedVersions versions))"
      by (auto simp: markedVersions_def)
  }
  fix i j
  let ?S = "sortedVersions versions"
  assume a: "i < length ?S \<and> j < length ?S \<and> ?S ! i = v \<and> 0 < versionTime (?S ! j)"
  have srt: "sorted (map (\<lambda>v. - versionTime v) ?S)"
    by (simp add: sortedVersions_def)
  show "j < i"
  proof (rule ccontr)
    assume "\<not> j < i"
    then have "i \<le> j" by simp
    with srt a have "map (\<lambda>v. - versionTime v) ?S ! i \<le> map (\<lambda>v. - versionTime v) ?S ! j"
      by (intro sorted_nth_mono) simp_all
    with a t show False by simp
  qed
qed

lemma untimed_selected:
  "versionsToDestroy hundredDaysOn keepTwoPolicy untimedVersions = [untimedVersion]"
  by code_simp

theorem missing_createTime_sorted_last_never_old_witness:
  "createTime_seconds untimedVersion = None
   \<and> versionTime untimedVersion = 0
   \<and> versionsToDestroy hundredDaysOn keepTwoPolicy untimedVersions = [untimedVersion]
   \<and> untimedVersion \<in> set (excessVersions keepTwoPolicy (sortedVersions untimedVersions))
   \<and> untimedVersion \<notin> set (oldVersions hundredDaysOn keepTwoPolicy (sortedVersions untimedVersions))"
proof -
  have none: "createTime_seconds untimedVersion = None"
    by (simp add: untimedVersion_def)
  from missing_createTime_sorted_last_never_old [OF none, of hundredDaysOn keepTwoPolicy
      "sortedVersions untimedVersions" untimedVersions] none untimed_selected
  show ?thesis by simp
qed

lemma listRequests_cleanupSecretVersions:
  assumes "enabled (getDeletePolicy (config m)) = Some True"
  shows "listRequests (snd (snd (cleanupSecretVersions c daysAgo m secretName s)))
           = listRequests (snd s) @ [(secretPathOf m secretName, 100)]"
proof (cases "fst (listSecretVersions c (secretPathOf m secretName) 100 (fst s))")
  case (Inl e)
  from cleanupSecretVersions_listing_fails [OF assms Inl] show ?thesis
    by (simp add: listRequests_append)
next
  case (Inr versions)
  from cleanupSecretVersions_listing_ok(2) [OF assms Inr] show ?thesis .
qed

lemma examplePolicy:
  "getDeletePolicy (config exampleManager) = getDeletePolicy exampleConfig"
  "enabled (getDeletePolicy exampleConfig) = Some True"
  by (simp_all add: exampleManager_def getDeletePolicy_def exampleConfig_def)

lemma examplePaths:
  "getSecretName exampleManager ''api'' = Inr ''API_ENV_FILE''"
  "getEnvPath exampleManager ''api'' = Inr ''.environments/.api.stg.env''"
  "secretPathOf exampleManager ''API_ENV_FILE'' = ''projects/demo-stg/secrets/API_ENV_FILE''"
  "projectId exampleManager = ''demo-stg''"
  by (simp_all add: getSecretName_def getEnvPath_def secretPathOf_def projectId_def
      getProjectId_def getServiceByName_def exampleManager_def exampleConfig_def)

text \<open>
  C2 (listing failure), as the code has it. When the policy is enabled and the listing of the
  secret of a configured service fails, an explicit \<^verbatim>\<open>cleanupVersions\<close> for that service
  sends no destroy request, but the error is not raised: the \<^verbatim>\<open>catch\<close> of
  \<^verbatim>\<open>cleanupSecretVersions\<close> prints it as a warning, and \<^verbatim>\<open>cleanupVersions\<close> returns
  normally after its completion line.
\<close>

theorem listing_failure_warned_not_raised:
  assumes "serviceName \<noteq> ''all''"
    and "getSecretName m serviceName = Inr secretName"
    and "enabled (getDeletePolicy (config m)) = Some True"
    and "fst (listSecretVersions c (secretPathOf m secretName) 100 (fst s)) = Inl e"
  shows "fst (cleanupVersions c daysAgo m serviceName s) = Inr ()
       \<and> snd (snd (cleanupVersions c daysAgo m serviceName s))
           = snd s @ [Request (ListSecretVersions (secretPathOf m secretName) 100),
                      Console (WarnCouldNotCleanUp secretName (message e)),
                      Console (LogCompletedCleanup serviceName (environment m))]
       \<and> destroyRequests (snd (snd (cleanupVersions c daysAgo m serviceName s)))
           = destroyRequests (snd s)"
  using assms(1,2) cleanupSecretVersions_listing_fails [OF assms(3,4), of daysAgo]
  by (simp add: cleanupVersions_def console_def destroyRequests_append)

theorem listing_failure_warned_not_raised_witness:
  "''api'' \<noteq> ''all''
   \<and> getSecretName exampleManager ''api'' = Inr ''API_ENV_FILE''
   \<and> enabled (getDeletePolicy (config exampleManager)) = Some True
   \<and> fst (listSecretVersions (stubClient (Inr ()) (Inl (Error ''PERMISSION_DENIED'')) [])
            (secretPathOf exampleManager ''API_ENV_FILE'') 100 (fst ((), [])))
       = Inl (Error ''PERMISSION_DENIED'')
   \<and> destroyRequests (snd (snd (cleanupVersions
         (stubClient (Inr ()) (Inl (Error ''PERMISSION_DENIED'')) []) hundredDaysOn
         exampleManager ''api'' ((), [])))) = []
   \<and> fst (cleanupVersions (stubClient (Inr ()) (Inl (Error ''PERMISSION_DENIED'')) [])
            hundredDaysOn exampleManager ''api'' ((), [])) = Inr ()"
proof -
  let ?c = "stubClient (Inr ()) (Inl (Error ''PERMISSION_DENIED'')) []"
  have a: "''api'' \<noteq> ''all''" by simp
  have b: "getSecretName exampleManager ''api'' = Inr ''API_ENV_FILE''"
    by (rule examplePaths)
  have c: "enabled (getDeletePolicy (config exampleManager)) = Some True"
    by (simp add: examplePolicy)
  have d: "fst (listSecretVersions ?c (secretPathOf exampleManager ''API_ENV_FILE'') 100
              (fst ((), []))) = Inl (Error ''PERMISSION_DENIED'')"
    by (simp add: stubClient_def)
  from listing_failure_warned_not_raised [OF a b c d, of hundredDaysOn] a b c d
  show ?thesis by simp
qed

theorem listing_failure_raised_counterexample:
  "fst (listSecretVersions (stubClient (Inr ()) (Inl (Error ''PERMISSION_DENIED'')) [])
          ''projects/demo-stg/secrets/API_ENV_FILE'' 100 ()) = Inl (Error ''PERMISSION_DENIED'')
   \<and> cleanupVersions (stubClient (Inr ()) (Inl (Error ''PERMISSION_DENIED'')) []) hundredDaysOn
        exampleManager ''api'' ((), [])
     = (Inr (), (),
        [Request (ListSecretVersions ''projects/demo-stg/secrets/API_ENV_FILE'' 100),
         Console (WarnCouldNotCleanUp ''API_ENV_FILE'' ''PERMISSION_DENIED''),
         Console (LogCompletedCleanup ''api'' staging)])"
  by (simp add: cleanupVersions_def cleanupSecretVersions_def cleanupTry_def examplePaths
      examplePolicy request_def console_def stubClient_def)
    (simp add: exampleManager_def)

text \<open>
  C5 (upload and cleanup), as the code has it. When the secret exists and the new version is
  added, the upload runs \<^verbatim>\<open>cleanupSecretVersions\<close> for that same secret, from the state
  the addition left, and then reports success: its result is a success whatever the client
  answered during the cleanup, because the cleanup returns normally for every client. With
  an enabled policy the run shows as one listing request for that secret.
\<close>

theorem upload_runs_cleanup_and_succeeds:
  assumes "getEnvPath m serviceName = Inr path"
    and "files path = Some envContent"
    and "getSecretName m serviceName = Inr secretName"
    and "request (getSecret c (secretPathOf m secretName))
           (GetSecret (secretPathOf m secretName)) s = (Inr u, s1)"
    and "request (addSecretVersion c (secretPathOf m secretName) envContent)
           (AddSecretVersion (secretPathOf m secretName) envContent) s1 = (Inr version, s2)"
  shows "uploadSingleEnv c daysAgo files m serviceName s
           = (Inr (), console (LogUploaded serviceName (environment m))
                        (snd (cleanupSecretVersions c daysAgo m secretName
                                (console (LogUpdatedSecret secretName (name version)) s2))))
       \<and> fst (cleanupSecretVersions c daysAgo m secretName
                (console (LogUpdatedSecret secretName (name version)) s2)) = Inr ()
       \<and> (enabled (getDeletePolicy (config m)) = Some True \<longrightarrow>
            listRequests (snd (snd (uploadSingleEnv c daysAgo files m serviceName s)))
              = listRequests (snd s) @ [(secretPathOf m secretName, 100)])"
proof -
  let ?s3 = "console (LogUpdatedSecret secretName (name version)) s2"
  let ?r = "cleanupSecretVersions c daysAgo m secretName ?s3"
  have ok: "fst ?r = Inr ()"
    by (rule cleanupSecretVersions_returns)
  then obtain st where r: "?r = (Inr (), st)"
    by (cases ?r) simp
  have body: "uploadTry c daysAgo m secretName envContent s = ?r"
    using assms(4,5) by (simp add: uploadTry_def)
  have up: "uploadSingleEnv c daysAgo files m serviceName s
           = (Inr (), console (LogUploaded serviceName (environment m)) (snd ?r))"
    using assms(1,2,3) by (simp add: uploadSingleEnv_def body r)
  have s1: "snd s1 = snd s @ [Request (GetSecret (secretPathOf m secretName))]"
    using assms(4) by (auto simp: request_def split: prod.splits)
  have s2: "snd s2 = snd s1 @ [Request (AddSecretVersion (secretPathOf m secretName) envContent)]"
    using assms(5) by (auto simp: request_def split: prod.splits)
  have before: "listRequests (snd ?s3) = listRequests (snd s)"
    by (simp add: console_def s1 s2 listRequests_append)
  have "listRequests (snd (snd (uploadSingleEnv c daysAgo files m serviceName s)))
          = listRequests (snd s) @ [(secretPathOf m secretName, 100)]"
    if "enabled (getDeletePolicy (config m)) = Some True"
    using listRequests_cleanupSecretVersions [OF that, of c daysAgo secretName ?s3] before
    by (simp add: up console_def listRequests_append)
  with up ok show ?thesis by blast
qed

theorem upload_runs_cleanup_and_succeeds_witness:
  "getEnvPath exampleManager ''api'' = Inr ''.environments/.api.stg.env''
   \<and> exampleFiles ''.environments/.api.stg.env'' = Some ''NODE_ENV=staging''
   \<and> getSecretName exampleManager ''api'' = Inr ''API_ENV_FILE''
   \<and> enabled (getDeletePolicy (config exampleManager)) = Some True
   \<and> fst (listSecretVersions (stubClient (Inr ()) (Inl (Error ''PERMISSION_DENIED'')) [])
            (secretPathOf exampleManager ''API_ENV_FILE'') 100 ())
       = Inl (Error ''PERMISSION_DENIED'')
   \<and> fst (uploadSingleEnv (stubClient (Inr ()) (Inl (Error ''PERMISSION_DENIED'')) [])
            hundredDaysOn exampleFiles exampleManager ''api'' ((), [])) = Inr ()
   \<and> listRequests (snd (snd (uploadSingleEnv
         (stubClient (Inr ()) (Inl (Error ''PERMISSION_DENIED'')) [])
         hundredDaysOn exampleFiles exampleManager ''api'' ((), []))))
       = [(''projects/demo-stg/secrets/API_ENV_FILE'', 100)]"
proof -
  let ?c = "stubClient (Inr ()) (Inl (Error ''PERMISSION_DENIED'')) []"
  let ?path = "secretPathOf exampleManager ''API_ENV_FILE''"
  have a: "getEnvPath exampleManager ''api'' = Inr ''.environments/.api.stg.env''"
    by (rule examplePaths)
  have b: "exampleFiles ''.environments/.api.stg.env'' = Some ''NODE_ENV=staging''"
    by (simp add: exampleFiles_def)
  have c: "getSecretName exampleManager ''api'' = Inr ''API_ENV_FILE''"
    by (rule examplePaths)
  have d: "request (getSecret ?c ?path) (GetSecret ?path) ((), [])
             = (Inr (), ((), [Request (GetSecret ?path)]))"
    by (simp add: request_def stubClient_def)
  have e: "request (addSecretVersion ?c ?path ''NODE_ENV=staging'')
             (AddSecretVersion ?path ''NODE_ENV=staging'') ((), [Request (GetSecret ?path)])
           = (Inr (mkVersion ''7'' ENABLED (t0 + 100 * day)),
              ((), [Request (GetSecret ?path), Request (AddSecretVersion ?path ''NODE_ENV=staging'')]))"
    by (simp add: request_def stubClient_def)
  have f: "enabled (getDeletePolicy (config exampleManager)) = Some True"
    by (simp add: examplePolicy)
  have g: "fst (listSecretVersions ?c ?path 100 ()) = Inl (Error ''PERMISSION_DENIED'')"
    by (simp add: stubClient_def)
  note th = upload_runs_cleanup_and_succeeds [where files = exampleFiles
      and daysAgo = hundredDaysOn, OF a b c d e]
  from conjunct1 [OF th]
  have ok: "fst (uploadSingleEnv ?c hundredDaysOn exampleFiles exampleManager ''api'' ((), []))
              = Inr ()"
    by simp
  from conjunct2 [OF conjunct2 [OF th]] f
  have "listRequests (snd (snd (uploadSingleEnv ?c hundredDaysOn exampleFiles
          exampleManager ''api'' ((), [])))) = [(''projects/demo-stg/secrets/API_ENV_FILE'', 100)]"
    by (simp add: examplePaths)
  with ok a b c f g show ?thesis by simp
qed

text \<open>
  The upload that creates the secret: \<^verbatim>\<open>getSecret\<close> fails with NOT_FOUND, the secret is
  created and its first version added, the upload succeeds, and no listing request is sent
  although the policy is enabled.
\<close>

theorem upload_runs_cleanup_counterexample:
  "enabled (getDeletePolicy (config exampleManager)) = Some True
   \<and> uploadSingleEnv
       (stubClient (Inl (Error ''5 NOT_FOUND: Secret not found'')) (Inr threeOldVersions) [])
       hundredDaysOn exampleFiles exampleManager ''api'' ((), [])
     = (Inr (), (),
        [Request (GetSecret ''projects/demo-stg/secrets/API_ENV_FILE''),
         Request (CreateSecret ''projects/demo-stg'' ''API_ENV_FILE''),
         Request (AddSecretVersion ''projects/demo-stg/secrets/API_ENV_FILE'' ''NODE_ENV=staging''),
         Console (LogCreatedSecret ''API_ENV_FILE'' (Some (versionName ''7''))),
         Console (LogUploaded ''api'' staging)])"
  by (simp add: uploadSingleEnv_def uploadTry_def uploadCatch_def examplePaths examplePolicy
      exampleFiles_def request_def console_def stubClient_def mkVersion_def)
    (simp add: exampleManager_def)

text \<open>
  C9 (one listing request), as the code has it. A cleanup run with an enabled policy sends
  exactly one listing request, for the secret's path and with page size 100, and decides
  from the whole array that this request returns: the destroy requests are the names of the
  versions selected from all of it. The code does not truncate the array; when the client
  returns at most 100 versions, at most 99 destroy requests follow.
\<close>

theorem one_listing_request_whole_array_evaluated:
  assumes "enabled (getDeletePolicy (config m)) = Some True"
  shows "listRequests (snd (snd (cleanupSecretVersions c daysAgo m secretName s)))
           = listRequests (snd s) @ [(secretPathOf m secretName, 100)]
       \<and> (fst (listSecretVersions c (secretPathOf m secretName) 100 (fst s)) = Inr versions \<longrightarrow>
            destroyRequests (snd (snd (cleanupSecretVersions c daysAgo m secretName s)))
              = destroyRequests (snd s)
                @ map (\<lambda>v. the (name v))
                    (filter hasName
                       (versionsToDestroy daysAgo (getDeletePolicy (config m)) versions)))
       \<and> (fst (listSecretVersions c (secretPathOf m secretName) 100 (fst s)) = Inr versions
            \<and> length versions \<le> 100 \<longrightarrow>
            length (destroyRequests (snd (snd (cleanupSecretVersions c daysAgo m secretName s))))
              \<le> length (destroyRequests (snd s)) + 99)"
proof (intro conjI impI)
  show "listRequests (snd (snd (cleanupSecretVersions c daysAgo m secretName s)))
           = listRequests (snd s) @ [(secretPathOf m secretName, 100)]"
    using assms by (rule listRequests_cleanupSecretVersions)
next
  assume "fst (listSecretVersions c (secretPathOf m secretName) 100 (fst s)) = Inr versions"
  with assms show "destroyRequests (snd (snd (cleanupSecretVersions c daysAgo m secretName s)))
              = destroyRequests (snd s)
                @ map (\<lambda>v. the (name v))
                    (filter hasName
                       (versionsToDestroy daysAgo (getDeletePolicy (config m)) versions))"
    by (rule cleanupSecretVersions_listing_ok(1))
next
  let ?sel = "versionsToDestroy daysAgo (getDeletePolicy (config m)) versions"
  assume a: "fst (listSecretVersions c (secretPathOf m secretName) 100 (fst s)) = Inr versions
            \<and> length versions \<le> 100"
  have "length ?sel \<le> 99"
  proof (cases "filter isLive versions = []")
    case True
    then have "length (filter isLive versions) \<le> 1" by simp
    then have "length (sortedVersions versions) \<le> 1"
      by (simp only: length_sortedVersions)
    then have "?sel = []"
      by (simp only: versionsToDestroy_eq keepOne_small)
    then show ?thesis by simp
  next
    case False
    from length_versionsToDestroy [OF False, of daysAgo "getDeletePolicy (config m)"]
    have "length ?sel < length (filter isLive versions)" .
    also have "\<dots> \<le> length versions" by simp
    finally show ?thesis using a by linarith
  qed
  moreover have "length (filter hasName ?sel) \<le> length ?sel" by simp
  ultimately have "length (filter hasName ?sel) \<le> 99" by linarith
  with cleanupSecretVersions_listing_ok(1) [OF assms conjunct1 [OF a], of daysAgo]
  show "length (destroyRequests (snd (snd (cleanupSecretVersions c daysAgo m secretName s))))
              \<le> length (destroyRequests (snd s)) + 99"
    by simp
qed

theorem one_listing_request_whole_array_evaluated_witness:
  "enabled (getDeletePolicy (config exampleManager)) = Some True
   \<and> fst (listSecretVersions (stubClient (Inr ()) (Inr sixOldVersions) [])
            (secretPathOf exampleManager ''API_ENV_FILE'') 100 (fst ((), []))) = Inr sixOldVersions
   \<and> length sixOldVersions \<le> 100
   \<and> listRequests (snd (snd (cleanupSecretVersions (stubClient (Inr ()) (Inr sixOldVersions) [])
         hundredDaysOn exampleManager ''API_ENV_FILE'' ((), []))))
       = [(''projects/demo-stg/secrets/API_ENV_FILE'', 100)]
   \<and> length (destroyRequests (snd (snd (cleanupSecretVersions
         (stubClient (Inr ()) (Inr sixOldVersions) [])
         hundredDaysOn exampleManager ''API_ENV_FILE'' ((), []))))) \<le> 99"
proof -
  let ?c = "stubClient (Inr ()) (Inr sixOldVersions) []"
  have on: "enabled (getDeletePolicy (config exampleManager)) = Some True"
    by (simp add: examplePolicy)
  have listing: "fst (listSecretVersions ?c (secretPathOf exampleManager ''API_ENV_FILE'') 100
                   (fst ((), []))) = Inr sixOldVersions"
    by (simp add: stubClient_def)
  have len: "length sixOldVersions \<le> 100"
    by (simp add: sixOldVersions_def)
  note th = one_listing_request_whole_array_evaluated [OF on, of ?c hundredDaysOn
      "''API_ENV_FILE''" "((), [])" sixOldVersions]
  from conjunct1 [OF th]
  have one: "listRequests (snd (snd (cleanupSecretVersions ?c hundredDaysOn exampleManager
         ''API_ENV_FILE'' ((), [])))) = [(''projects/demo-stg/secrets/API_ENV_FILE'', 100)]"
    by (simp add: examplePaths)
  from conjunct2 [OF conjunct2 [OF th]] listing len
  have "length (destroyRequests (snd (snd (cleanupSecretVersions ?c hundredDaysOn exampleManager
         ''API_ENV_FILE'' ((), []))))) \<le> 99"
    by simp
  with on listing len one show ?thesis by blast
qed

lemma manyVersions_oldest_selected:
  "mkVersion ''oldest'' ENABLED t0
     \<in> set (versionsToDestroy twoHundredDaysOn (getDeletePolicy exampleConfig) manyVersions)"
  by code_simp

lemma manyVersions_shape:
  "length manyVersions = 101"
  "manyVersions ! 100 = mkVersion ''oldest'' ENABLED t0"
  by (simp_all add: manyVersions_def nth_append)

text \<open>
  A listing of 101 versions, as a client that follows the pages returns it: the version at
  index 100 is evaluated and destroyed.
\<close>

theorem one_listing_request_counterexample:
  "fst (listSecretVersions (stubClient (Inr ()) (Inr manyVersions) [])
          (secretPathOf exampleManager ''API_ENV_FILE'') 100 (fst ((), []))) = Inr manyVersions
   \<and> length manyVersions = 101
   \<and> manyVersions ! 100 = mkVersion ''oldest'' ENABLED t0
   \<and> versionName ''oldest''
       \<in> set (destroyRequests (snd (snd (cleanupSecretVersions
                (stubClient (Inr ()) (Inr manyVersions) []) twoHundredDaysOn exampleManager
                ''API_ENV_FILE'' ((), [])))))"
proof -
  let ?c = "stubClient (Inr ()) (Inr manyVersions) []"
  let ?sel = "versionsToDestroy twoHundredDaysOn (getDeletePolicy (config exampleManager))
                manyVersions"
  have on: "enabled (getDeletePolicy (config exampleManager)) = Some True"
    by (simp add: examplePolicy)
  have listing: "fst (listSecretVersions ?c (secretPathOf exampleManager ''API_ENV_FILE'') 100
                   (fst ((), []))) = Inr manyVersions"
    by (simp add: stubClient_def)
  have "mkVersion ''oldest'' ENABLED t0 \<in> set ?sel"
    using manyVersions_oldest_selected by (simp add: examplePolicy)
  moreover have "hasName (mkVersion ''oldest'' ENABLED t0)"
    by (simp add: hasName_def mkVersion_def versionName_def)
  ultimately have "mkVersion ''oldest'' ENABLED t0 \<in> set (filter hasName ?sel)"
    by simp
  then have "the (name (mkVersion ''oldest'' ENABLED t0))
               \<in> set (map (\<lambda>v. the (name v)) (filter hasName ?sel))"
    by (simp only: set_map) (rule imageI)
  then have "versionName ''oldest'' \<in> set (map (\<lambda>v. the (name v)) (filter hasName ?sel))"
    by (simp add: mkVersion_def)
  with cleanupSecretVersions_listing_ok(1) [OF on listing, of twoHundredDaysOn]
  have "versionName ''oldest''
       \<in> set (destroyRequests (snd (snd (cleanupSecretVersions ?c twoHundredDaysOn
                exampleManager ''API_ENV_FILE'' ((), [])))))"
    by simp
  with listing manyVersions_shape show ?thesis by blast
qed

text \<open>
  C3 (which version the floor keeps). Three enabled versions, all older than thirty days,
  under the default policy: the candidates cover the live set, and the version taken out of
  them is the last of the list, here the oldest one. The two newest versions are destroyed,
  the newest of all among them.
\<close>

theorem floor_keeps_oldest_destroys_newest:
  "sortedVersions threeOldVersions
     = [mkVersion ''3'' ENABLED (t0 + 20 * day), mkVersion ''2'' ENABLED (t0 + 10 * day),
        mkVersion ''1'' ENABLED t0]
   \<and> markedVersions hundredDaysOn (getDeletePolicy exampleConfig) (sortedVersions threeOldVersions)
     = sortedVersions threeOldVersions
   \<and> versionsToDestroy hundredDaysOn (getDeletePolicy exampleConfig) threeOldVersions
     = [mkVersion ''3'' ENABLED (t0 + 20 * day), mkVersion ''2'' ENABLED (t0 + 10 * day)]"
proof (intro conjI)
  show "sortedVersions threeOldVersions
     = [mkVersion ''3'' ENABLED (t0 + 20 * day), mkVersion ''2'' ENABLED (t0 + 10 * day),
        mkVersion ''1'' ENABLED t0]"
    by code_simp
  show "markedVersions hundredDaysOn (getDeletePolicy exampleConfig)
          (sortedVersions threeOldVersions) = sortedVersions threeOldVersions"
    by code_simp
  show "versionsToDestroy hundredDaysOn (getDeletePolicy exampleConfig) threeOldVersions
     = [mkVersion ''3'' ENABLED (t0 + 20 * day), mkVersion ''2'' ENABLED (t0 + 10 * day)]"
    by (rule threeOld_selected)
qed

lemma find_name_None:
  assumes "inj_on name (insert x (set acc))"
  shows "find (\<lambda>v. name v = name x) acc = None \<longleftrightarrow> x \<notin> set acc"
  using assms by (auto simp: find_None_iff inj_on_def)

lemma pushNew_distinct_names:
  assumes "inj_on name (set acc \<union> set xs)" and "distinct acc"
  shows "set (pushNew acc xs) = set acc \<union> set xs \<and> distinct (pushNew acc xs)"
  using assms
proof (induction xs arbitrary: acc)
  case Nil
  then show ?case by simp
next
  case (Cons x xs)
  from Cons.prems(1) have inj: "inj_on name (insert x (set acc))"
    by (auto intro: inj_on_subset)
  show ?case
  proof (cases "x \<in> set acc")
    case True
    with inj have "find (\<lambda>v. name v = name x) acc \<noteq> None"
      by (simp add: find_name_None)
    moreover from Cons.prems(1) have "inj_on name (set acc \<union> set xs)"
      by (auto intro: inj_on_subset)
    ultimately show ?thesis
      using Cons.IH [of acc] Cons.prems(2) True by auto
  next
    case False
    with inj have none: "find (\<lambda>v. name v = name x) acc = None"
      by (simp add: find_name_None)
    from Cons.prems(1) have "inj_on name (set (acc @ [x]) \<union> set xs)"
      by (auto intro: inj_on_subset)
    moreover from False Cons.prems(2) have "distinct (acc @ [x])" by simp
    ultimately show ?thesis
      using Cons.IH [of "acc @ [x]"] none by auto
  qed
qed

lemma sortedVersions_distinct_names:
  assumes "distinct (map name (filter isLive versions))"
  shows "distinct (sortedVersions versions)" and "inj_on name (set (sortedVersions versions))"
  using assms by (auto simp: sortedVersions_def distinct_map)

lemma set_drop_index: "set (drop k xs) = {xs ! i | i. k \<le> i \<and> i < length xs}"
proof (intro set_eqI iffI)
  fix x assume "x \<in> set (drop k xs)"
  then obtain j where j: "j < length (drop k xs)" "drop k xs ! j = x"
    by (auto simp: in_set_conv_nth)
  then have "x = xs ! (k + j)" "k \<le> k + j" "k + j < length xs"
    by auto
  then show "x \<in> {xs ! i | i. k \<le> i \<and> i < length xs}" by blast
next
  fix x assume "x \<in> {xs ! i | i. k \<le> i \<and> i < length xs}"
  then obtain i where i: "x = xs ! i" "k \<le> i" "i < length xs" by blast
  then have "i - k < length (drop k xs)" "drop k xs ! (i - k) = x"
    by auto
  then show "x \<in> set (drop k xs)"
    by (metis nth_mem)
qed

lemma markedVersions_union:
  assumes "maxVersions p = Some n" "0 < n" "maxAgeDays p = Some d" "0 < d"
    and "distinct S" "inj_on name (set S)"
  shows "set (markedVersions daysAgo p S)
           = set (drop (nat n) S) \<union> {v \<in> set S. olderThan (daysAgo d) v}"
    and "distinct (markedVersions daysAgo p S)"
proof -
  have m: "markedVersions daysAgo p S
             = pushNew (drop (nat n) S) (filter (olderThan (daysAgo d)) S)"
    using assms(1-4) by (simp add: markedVersions_def excessVersions_def oldVersions_def)
  have "set (drop (nat n) S) \<union> set (filter (olderThan (daysAgo d)) S) \<subseteq> set S"
    by (auto dest: in_set_dropD)
  with assms(6) have "inj_on name (set (drop (nat n) S) \<union> set (filter (olderThan (daysAgo d)) S))"
    by (rule inj_on_subset)
  moreover from assms(5) have "distinct (drop (nat n) S)" by simp
  ultimately have "set (pushNew (drop (nat n) S) (filter (olderThan (daysAgo d)) S))
        = set (drop (nat n) S) \<union> set (filter (olderThan (daysAgo d)) S)
      \<and> distinct (pushNew (drop (nat n) S) (filter (olderThan (daysAgo d)) S))"
    by (rule pushNew_distinct_names)
  then show "set (markedVersions daysAgo p S)
           = set (drop (nat n) S) \<union> {v \<in> set S. olderThan (daysAgo d) v}"
    and "distinct (markedVersions daysAgo p S)"
    unfolding m by auto
qed

lemma twelve_sorted: "sortedVersions twelveVersions = rev twelveVersions"
  by code_simp

lemma twelve_selected:
  "versionsToDestroy atTheNewest fiveVersionsThreeDays twelveVersions
     = [mkVersion ''7'' ENABLED (t0 + 6 * day), mkVersion ''6'' ENABLED (t0 + 5 * day),
        mkVersion ''5'' ENABLED (t0 + 4 * day), mkVersion ''4'' ENABLED (t0 + 3 * day),
        mkVersion ''3'' ENABLED (t0 + 2 * day), mkVersion ''2'' ENABLED (t0 + day),
        mkVersion ''1'' ENABLED t0, mkVersion ''8'' ENABLED (t0 + 7 * day)]"
  by code_simp

lemma twelve_survivors:
  "filter (\<lambda>v. v \<notin> set (versionsToDestroy atTheNewest fiveVersionsThreeDays twelveVersions))
     (sortedVersions twelveVersions) = take 4 (sortedVersions twelveVersions)"
  by code_simp

lemma twelve_destroyed:
  "set (versionsToDestroy atTheNewest fiveVersionsThreeDays twelveVersions)
     = set (drop 4 (sortedVersions twelveVersions))"
  unfolding twelve_selected twelve_sorted
  by (simp add: twelveVersions_def insert_commute)

text \<open>
  C4 (union of the two rules). With both limits positive and distinct version names, the
  set of selected versions is the union of the versions at sorted index \<open>maxVersions\<close> or
  more and of the versions older than the cut-off, when that union leaves a live version
  out; when the union is the whole live set, the selection is the union less one version.
  For twelve versions a day apart, five versions and three days, read at the creation time
  of the newest: the versions at sorted indices 4 to 11 are selected and those at indices 0
  to 3 are left.
\<close>

theorem union_of_count_and_age_candidates:
  assumes "maxVersions p = Some n" and "0 < n" and "maxAgeDays p = Some d" and "0 < d"
    and "distinct (map name (filter isLive versions))"
  shows "(({sortedVersions versions ! i | i. nat n \<le> i \<and> i < length (sortedVersions versions)}
            \<union> {v \<in> set (sortedVersions versions). olderThan (daysAgo d) v}
            \<noteq> set (sortedVersions versions)) \<longrightarrow>
          set (versionsToDestroy daysAgo p versions)
            = {sortedVersions versions ! i | i. nat n \<le> i \<and> i < length (sortedVersions versions)}
              \<union> {v \<in> set (sortedVersions versions). olderThan (daysAgo d) v})
       \<and> (({sortedVersions versions ! i | i. nat n \<le> i \<and> i < length (sortedVersions versions)}
            \<union> {v \<in> set (sortedVersions versions). olderThan (daysAgo d) v}
            = set (sortedVersions versions)) \<longrightarrow>
          set (versionsToDestroy daysAgo p versions) \<subseteq> set (sortedVersions versions)
          \<and> card (set (versionsToDestroy daysAgo p versions))
              = card (set (sortedVersions versions)) - 1)
       \<and> length (sortedVersions twelveVersions) = 12
       \<and> set (versionsToDestroy atTheNewest fiveVersionsThreeDays twelveVersions)
           = set (drop 4 (sortedVersions twelveVersions))
       \<and> filter (\<lambda>v. v \<notin> set (versionsToDestroy atTheNewest fiveVersionsThreeDays twelveVersions))
            (sortedVersions twelveVersions) = take 4 (sortedVersions twelveVersions)"
proof -
  let ?S = "sortedVersions versions"
  let ?M = "markedVersions daysAgo p ?S"
  let ?U = "set (drop (nat n) ?S) \<union> {v \<in> set ?S. olderThan (daysAgo d) v}"
  let ?D = "set (versionsToDestroy daysAgo p versions)"
  have dS: "distinct ?S" and iS: "inj_on name (set ?S)"
    using sortedVersions_distinct_names [OF assms(5)] by simp_all
  have setM: "set ?M = ?U" and dM: "distinct ?M"
    using markedVersions_union [OF assms(1-4) dS iS, of daysAgo] by simp_all
  have sub: "?U \<subseteq> set ?S"
    by (auto dest: in_set_dropD)
  have lenM: "length ?M = card ?U"
    using dM setM by (metis distinct_card)
  have lenS: "length ?S = card (set ?S)"
    using dS by (simp add: distinct_card)
  have D: "versionsToDestroy daysAgo p versions = keepOne ?S ?M"
    by (rule versionsToDestroy_eq)
  have idx: "{?S ! i | i. nat n \<le> i \<and> i < length ?S} = set (drop (nat n) ?S)"
    by (simp only: set_drop_index)
  have part: "?U \<noteq> set ?S \<longrightarrow> ?D = ?U"
  proof
    assume "?U \<noteq> set ?S"
    with sub have "?U \<subset> set ?S" by blast
    then have "card ?U < card (set ?S)"
      by (intro psubset_card_mono) simp_all
    with lenM lenS have "length ?M < length ?S" by simp
    then have "keepOne ?S ?M = ?M" by (simp add: keepOne_def)
    with D setM show "?D = ?U" by simp
  qed
  have whole: "?U = set ?S \<longrightarrow> ?D \<subseteq> set ?S \<and> card ?D = card (set ?S) - 1"
  proof
    assume eq: "?U = set ?S"
    with lenM lenS have "length ?M = length ?S" by simp
    then have k: "keepOne ?S ?M = butlast ?M" by (simp add: keepOne_def)
    have "set (butlast ?M) \<subseteq> set ?M"
      by (auto dest: in_set_butlastD)
    with setM eq k D have s: "?D \<subseteq> set ?S" by simp
    from dM have "card (set (butlast ?M)) = length (butlast ?M)"
      by (intro distinct_card distinct_butlast)
    with lenM eq k D have "card ?D = card (set ?S) - 1" by simp
    with s show "?D \<subseteq> set ?S \<and> card ?D = card (set ?S) - 1" ..
  qed
  have twelve: "length (sortedVersions twelveVersions) = 12"
    unfolding twelve_sorted by (simp add: twelveVersions_def)
  from part whole twelve twelve_destroyed twelve_survivors show ?thesis
    unfolding idx by blast
qed

theorem union_of_count_and_age_candidates_witness:
  "maxVersions fiveVersionsThreeDays = Some 5 \<and> (0::int) < 5
   \<and> maxAgeDays fiveVersionsThreeDays = Some 3 \<and> (0::int) < 3
   \<and> distinct (map name (filter isLive twelveVersions))
   \<and> {sortedVersions twelveVersions ! i | i.
         nat 5 \<le> i \<and> i < length (sortedVersions twelveVersions)}
       \<union> {v \<in> set (sortedVersions twelveVersions). olderThan (atTheNewest 3) v}
       \<noteq> set (sortedVersions twelveVersions)
   \<and> set (versionsToDestroy atTheNewest fiveVersionsThreeDays twelveVersions)
       = {sortedVersions twelveVersions ! i | i.
            nat 5 \<le> i \<and> i < length (sortedVersions twelveVersions)}
         \<union> {v \<in> set (sortedVersions twelveVersions). olderThan (atTheNewest 3) v}"
proof -
  have a: "maxVersions fiveVersionsThreeDays = Some 5" "(0::int) < 5"
    "maxAgeDays fiveVersionsThreeDays = Some 3" "(0::int) < 3"
    by (simp_all add: fiveVersionsThreeDays_def)
  have names: "distinct (map name (filter isLive twelveVersions))"
    by (simp add: twelveVersions_def mkVersion_def isLive_def versionName_def)
  have newest: "mkVersion ''12'' ENABLED (t0 + 11 * day) \<in> set (sortedVersions twelveVersions)"
    unfolding twelve_sorted by (simp add: twelveVersions_def)
  have kept: "mkVersion ''12'' ENABLED (t0 + 11 * day)
      \<notin> set (drop (nat 5) (sortedVersions twelveVersions))
         \<union> {v \<in> set (sortedVersions twelveVersions). olderThan (atTheNewest 3) v}"
    unfolding twelve_sorted
    by (simp add: twelveVersions_def mkVersion_def versionName_def olderThan_def
        atTheNewest_def utcDaysAgo_def day_def t0_def)
  have ne: "{sortedVersions twelveVersions ! i | i.
         nat 5 \<le> i \<and> i < length (sortedVersions twelveVersions)}
       \<union> {v \<in> set (sortedVersions twelveVersions). olderThan (atTheNewest 3) v}
       \<noteq> set (sortedVersions twelveVersions)"
    using newest kept unfolding set_drop_index [symmetric] by blast
  from conjunct1 [OF union_of_count_and_age_candidates [OF a names, of atTheNewest]] ne
  have "set (versionsToDestroy atTheNewest fiveVersionsThreeDays twelveVersions)
       = {sortedVersions twelveVersions ! i | i.
            nat 5 \<le> i \<and> i < length (sortedVersions twelveVersions)}
         \<union> {v \<in> set (sortedVersions twelveVersions). olderThan (atTheNewest 3) v}"
    by blast
  with a names ne show ?thesis by blast
qed

end
